theory Spec2Isabelle
  imports Main "HOL-Library.Sublist"
begin

section \<open>The terminal-recording post-processor \<^verbatim>\<open>docs/terminal/fix.py\<close>\<close>

text \<open>
  The script reads a recording with \<^verbatim>\<open>readlines()\<close>, rewrites the lines in place in
  three loops, collapses the package-addition records into one and prints everything but
  the last two lines. The model takes the list of lines that \<^verbatim>\<open>readlines()\<close> returned
  and gives back either the uncaught exception or the text written to standard output.
\<close>

subsection \<open>Python strings\<close>

text \<open>
  A Python \<^verbatim>\<open>str\<close> is a sequence of Unicode code points, so a string is a list of
  naturals here (an 8-bit \<^typ>\<open>char\<close> could not hold what \<^verbatim>\<open>\uXXXX\<close> decodes to).
  \<open>str\<close> turns an Isabelle literal into such a string; a backslash cannot be written
  inside a literal and is spelled by its code point 92.
\<close>

type_synonym pystr = "nat list"

abbreviation str :: "string \<Rightarrow> pystr" where
  "str s \<equiv> map of_char s"

text \<open>\<^verbatim>\<open>sub in s\<close>: \<open>sub\<close> occurs in \<open>s\<close> as a contiguous block.\<close>

fun contains :: "'a list \<Rightarrow> 'a list \<Rightarrow> bool" where
  "contains sub [] = (sub = [])"
| "contains sub (c # cs) = (prefix sub (c # cs) \<or> contains sub cs)"

text \<open>
  \<^verbatim>\<open>s.replace(old, new)\<close>: the occurrences of \<open>old\<close> are found from the left and do not
  overlap; the scan resumes behind each occurrence it replaced. (For an empty \<open>old\<close>
  Python puts \<open>new\<close> in front of every character and at the end.)
\<close>

function replace :: "'a list \<Rightarrow> 'a list \<Rightarrow> 'a list \<Rightarrow> 'a list" where
  "replace old new [] = (if old = [] then new else [])"
| "replace old new (c # cs) =
     (if old = [] then new @ c # replace old new cs
      else if prefix old (c # cs) then new @ replace old new (drop (length old) (c # cs))
      else c # replace old new cs)"
  by pat_completeness auto
termination
  by (relation "measure (\<lambda>(old, new, s). length s)") auto

text \<open>
  \<^verbatim>\<open>s.split(sep)\<close> for a non-empty separator, again scanning from the left. Python raises
  \<^verbatim>\<open>ValueError\<close> for an empty separator; the script splits on one fixed two-character
  separator only, and the model returns the string unsplit in that unused case. (The result
  of a split is never empty, so the first branch of the \<open>case\<close> is never taken.)
\<close>

function split :: "'a list \<Rightarrow> 'a list \<Rightarrow> 'a list list" where
  "split sep [] = [[]]"
| "split sep (c # cs) =
     (if sep = [] then [c # cs]
      else if prefix sep (c # cs) then [] # split sep (drop (length sep) (c # cs))
      else (case split sep cs of [] \<Rightarrow> [[c]] | x # xs \<Rightarrow> (c # x) # xs))"
  by pat_completeness auto
termination
  by (relation "measure (\<lambda>(sep, s). length s)") auto

text \<open>\<^verbatim>\<open>sep.join(xs)\<close>.\<close>

fun join :: "'a list \<Rightarrow> 'a list list \<Rightarrow> 'a list" where
  "join sep [] = []"
| "join sep [x] = x"
| "join sep (x # y # ys) = x @ sep @ join sep (y # ys)"

subsection \<open>The constants of the script\<close>

definition prompt_end :: pystr where
  \<open>prompt_end = str ''$ "]''\<close>

definition prompt :: pystr where
  "prompt = str ''$ ''"

text \<open>The next event is a bare newline: the seven characters \<^verbatim>\<open>"\r\n"]\<close>.\<close>

definition bare_newline :: pystr where
  \<open>bare_newline = str ''"'' @ [92] @ str ''r'' @ [92] @ str ''n"]''\<close>

definition hash_mark :: pystr where
  \<open>hash_mark = str ''"#"''\<close>

text \<open>The escaped line break as it stands in the raw text: \<^verbatim>\<open>\r\n\<close>, four characters.\<close>

definition crlf_esc :: pystr where
  "crlf_esc = [92] @ str ''r'' @ [92] @ str ''n''"

text \<open>The escape sequences the script inserts, again as raw text: \<^verbatim>\<open>\u001b[0m\<close> (reset),
  \<^verbatim>\<open>\u001b[39;2m\<close> (dim) and \<^verbatim>\<open>\u001b[34m$\u001b[0m \<close> (a blue dollar sign, reset, space).\<close>

definition reset :: pystr where
  "reset = [92] @ str ''u001b[0m''"

definition dim :: pystr where
  "dim = [92] @ str ''u001b[39;2m''"

definition blue :: pystr where
  "blue = [92] @ str ''u001b[34m$'' @ [92] @ str ''u001b[0m ''"

definition marker :: pystr where
  "marker = str ''go: added github.com/''"

text \<open>The separator of the decoded payload: a real carriage return and a real line feed.\<close>

definition CRLF :: pystr where
  "CRLF = [13, 10]"

definition dots :: pystr where
  "dots = str ''...''"

subsection \<open>The first loop: prompt rewriting and newline annotation\<close>

text \<open>
  One iteration of the loop over \<^verbatim>\<open>range(len(lines))\<close>. The list is updated in place, so
  the second test of the successor reads the list the first assignment left behind.
\<close>

definition annotate_step :: "nat \<Rightarrow> pystr list \<Rightarrow> pystr list" where
  "annotate_step i lines =
     (let lines1 =
        (if contains prompt_end (lines ! i) then
           (if i < length lines - 1 then
              (let linesa =
                 (if contains bare_newline (lines ! (i + 1))
                  then lines[i := replace prompt [] (lines ! i)] else lines);
                   linesb =
                 (if contains hash_mark (linesa ! (i + 1))
                  then linesa[i := replace prompt dim (linesa ! i)] else linesa)
               in linesb)
            else lines)
         else lines)
      in lines1[i := replace crlf_esc (crlf_esc @ reset) (lines1 ! i)])"

definition annotate_pass :: "pystr list \<Rightarrow> pystr list" where
  "annotate_pass lines = fold annotate_step [0..<length lines] lines"

subsection \<open>The second loop: colouring the prompts that are left\<close>

definition recolor_step :: "nat \<Rightarrow> pystr list \<Rightarrow> pystr list" where
  "recolor_step i lines = lines[i := replace prompt blue (lines ! i)]"

definition recolor_pass :: "pystr list \<Rightarrow> pystr list" where
  "recolor_pass lines = fold recolor_step [0..<length lines] lines"

subsection \<open>Exceptions and decoded JSON values\<close>

text \<open>
  The exceptions the script can die of. Nothing in it catches one, so the first raised
  ends the run.
\<close>

datatype error = JSONDecodeError | IndexError | KeyError | TypeError | AttributeError

text \<open>
  What \<^verbatim>\<open>json.loads\<close> returns: \<^verbatim>\<open>None\<close>, a bool, an int, a float, a \<^verbatim>\<open>str\<close>, a list or
  a dict (keys in insertion order). The script never computes with a number, and a
  float is IEEE arithmetic, so a float is kept as the text of its literal (\<^verbatim>\<open>NaN\<close>,
  \<^verbatim>\<open>Infinity\<close> and \<^verbatim>\<open>-Infinity\<close> included).
\<close>

datatype json =
    JNull
  | JBool bool
  | JInt int
  | JFloat pystr
  | JStr pystr
  | JList "json list"
  | JDict "(pystr \<times> json) list"

subsection \<open>\<^verbatim>\<open>json.loads\<close>\<close>

text \<open>
  The decoder of the standard library, as its C scanner behaves (the one \<^verbatim>\<open>json.loads\<close>
  uses): white space is space, tab, line feed and carriage return; a \<^verbatim>\<open>\u\<close> escape takes
  four hexadecimal digits; digits are ASCII. Every way of failing is the one exception
  \<^verbatim>\<open>JSONDecodeError\<close>. The interpreter's limits (recursion depth, the length of an integer
  literal) are not modelled.
\<close>

definition is_ws :: "nat \<Rightarrow> bool" where
  "is_ws c \<longleftrightarrow> c = 32 \<or> c = 9 \<or> c = 10 \<or> c = 13"

definition skip_ws :: "pystr \<Rightarrow> pystr" where
  "skip_ws s = dropWhile is_ws s"

definition is_digit :: "nat \<Rightarrow> bool" where
  "is_digit c \<longleftrightarrow> 48 \<le> c \<and> c \<le> 57"

definition hexval :: "nat \<Rightarrow> nat option" where
  "hexval c =
     (if 48 \<le> c \<and> c \<le> 57 then Some (c - 48)
      else if 97 \<le> c \<and> c \<le> 102 then Some (c - 87)
      else if 65 \<le> c \<and> c \<le> 70 then Some (c - 55)
      else None)"

text \<open>The four digits behind \<^verbatim>\<open>\u\<close>.\<close>

definition decode_uXXXX :: "pystr \<Rightarrow> nat option" where
  "decode_uXXXX s =
     (case s of
        a # b # c # d # _ \<Rightarrow>
          (case (hexval a, hexval b, hexval c, hexval d) of
             (Some x, Some y, Some z, Some w) \<Rightarrow> Some (((x * 16 + y) * 16 + z) * 16 + w)
           | _ \<Rightarrow> None)
      | _ \<Rightarrow> None)"

text \<open>The table of the one-letter escapes: \<^verbatim>\<open>" \ / b f n r t\<close>.\<close>

definition BACKSLASH :: "nat \<Rightarrow> nat option" where
  "BACKSLASH esc =
     (if esc = 34 then Some 34
      else if esc = 92 then Some 92
      else if esc = 47 then Some 47
      else if esc = 98 then Some 8
      else if esc = 102 then Some 12
      else if esc = 110 then Some 10
      else if esc = 114 then Some 13
      else if esc = 116 then Some 9
      else None)"

text \<open>
  One escape sequence, read behind its backslash: the character it stands for and the
  text behind it. A high surrogate followed by the escape of a low surrogate is one
  character (the shift by ten bits and the bitwise or of the source are a multiplication
  by 1024 and a sum here, the low part being below 1024).
\<close>

definition scan_escape :: "pystr \<Rightarrow> (nat \<times> pystr) option" where
  "scan_escape s =
     (case s of
        [] \<Rightarrow> None
      | esc # es \<Rightarrow>
          if esc \<noteq> 117 then
            (case BACKSLASH esc of None \<Rightarrow> None | Some ch \<Rightarrow> Some (ch, es))
          else
            (case decode_uXXXX es of
               None \<Rightarrow> None
             | Some uni \<Rightarrow>
                 if 0xd800 \<le> uni \<and> uni \<le> 0xdbff \<and> take 2 (drop 4 es) = [92, 117] then
                   (case decode_uXXXX (drop 6 es) of
                      None \<Rightarrow> None
                    | Some uni2 \<Rightarrow>
                        if 0xdc00 \<le> uni2 \<and> uni2 \<le> 0xdfff
                        then Some (0x10000 + ((uni - 0xd800) * 1024 + (uni2 - 0xdc00)), drop 10 es)
                        else Some (uni, drop 4 es))
                 else Some (uni, drop 4 es)))"

lemma scan_escape_shorter: "scan_escape s = Some (ch, rest) \<Longrightarrow> length rest < length s"
  unfolding scan_escape_def
  by (cases s) (auto simp: less_Suc_eq_le split: if_splits option.splits)

definition append_char :: "nat \<Rightarrow> error + pystr \<times> pystr \<Rightarrow> error + pystr \<times> pystr" where
  "append_char ch r = (case r of Inl e \<Rightarrow> Inl e | Inr (s, rest) \<Rightarrow> Inr (ch # s, rest))"

text \<open>
  \<^verbatim>\<open>scanstring\<close>, started behind the opening quote: the decoded string and the text behind
  the closing quote. A control character inside the literal is an error (strict mode).
\<close>

function scanstring :: "pystr \<Rightarrow> error + pystr \<times> pystr" where
  "scanstring [] = Inl JSONDecodeError"
| "scanstring (c # cs) =
     (if c = 34 then Inr ([], cs)
      else if c = 92 then
        (case scan_escape cs of
           None \<Rightarrow> Inl JSONDecodeError
         | Some (ch, rest) \<Rightarrow> append_char ch (scanstring rest))
      else if c < 32 then Inl JSONDecodeError
      else append_char c (scanstring cs))"
  by pat_completeness auto
termination
  by (relation "measure length") (auto dest: scan_escape_shorter)

lemma scanstring_shorter: "scanstring s = Inr (d, rest) \<Longrightarrow> length rest < length s"
proof (induction s arbitrary: d rule: scanstring.induct)
  case 1
  then show ?case by simp
next
  case (2 c cs)
  show ?case
  proof (cases "c = 34")
    case True
    with "2.prems" show ?thesis by simp
  next
    case False
    show ?thesis
    proof (cases "c = 92")
      case True
      with "2.prems" obtain ch r d' where e: "scan_escape cs = Some (ch, r)"
        and s: "scanstring r = Inr (d', rest)"
        by (auto simp: append_char_def split: option.splits sum.splits)
      from "2.IH"(1) [OF False True e refl s] scan_escape_shorter [OF e]
      show ?thesis by simp
    next
      case nb: False
      with False "2.prems" obtain d' where lt: "\<not> c < 32" and s: "scanstring cs = Inr (d', rest)"
        by (auto simp: append_char_def split: if_splits sum.splits)
      from "2.IH"(2) [OF False nb lt s] show ?thesis by simp
    qed
  qed
qed

text \<open>
  A number is the longest match of \<^verbatim>\<open>-?(0|[1-9][0-9]*)(\.[0-9]+)?([eE][-+]?[0-9]+)?\<close> at
  the front of the text: the four groups first, then the value.
\<close>

definition int_of_digits :: "pystr \<Rightarrow> int" where
  "int_of_digits ds = foldl (\<lambda>a d. 10 * a + int (d - 48)) 0 ds"

definition number_sign :: "pystr \<Rightarrow> pystr" where
  "number_sign s = (if s \<noteq> [] \<and> hd s = 45 then [45] else [])"

definition number_integer :: "pystr \<Rightarrow> pystr" where
  "number_integer s =
     (if s \<noteq> [] \<and> hd s = 48 then [48]
      else if s \<noteq> [] \<and> is_digit (hd s) then takeWhile is_digit s
      else [])"

definition number_frac :: "pystr \<Rightarrow> pystr" where
  "number_frac s =
     (if s \<noteq> [] \<and> hd s = 46 \<and> takeWhile is_digit (tl s) \<noteq> []
      then 46 # takeWhile is_digit (tl s) else [])"

definition number_exp :: "pystr \<Rightarrow> pystr" where
  "number_exp s =
     (if s \<noteq> [] \<and> (hd s = 101 \<or> hd s = 69) then
        (let esign = (if tl s \<noteq> [] \<and> (hd (tl s) = 45 \<or> hd (tl s) = 43) then [hd (tl s)] else []);
             edigits = takeWhile is_digit (drop (length esign) (tl s))
         in if edigits = [] then [] else hd s # esign @ edigits)
      else [])"

definition match_number :: "pystr \<Rightarrow> (json \<times> pystr) option" where
  "match_number s =
     (let sign = number_sign s;
          integer = number_integer (drop (length sign) s);
          frac = number_frac (drop (length (sign @ integer)) s);
          exp = number_exp (drop (length (sign @ integer @ frac)) s);
          rest = drop (length (sign @ integer @ frac @ exp)) s
      in if integer = [] then None
         else if frac = [] \<and> exp = []
         then Some (JInt (if sign = [] then int_of_digits integer else - int_of_digits integer), rest)
         else Some (JFloat (sign @ integer @ frac @ exp), rest))"

lemma match_number_shorter: "match_number s = Some (v, rest) \<Longrightarrow> length rest < length s"
proof -
  assume a: "match_number s = Some (v, rest)"
  define sign where "sign = number_sign s"
  define integer where "integer = number_integer (drop (length sign) s)"
  have ne: "integer \<noteq> []"
    and le: "length rest \<le> length s - (length sign + length integer)"
    using a unfolding match_number_def Let_def sign_def [symmetric] integer_def [symmetric]
    by (auto split: if_splits)
  have "length integer \<le> length (drop (length sign) s)"
    unfolding integer_def number_integer_def
    by (cases "drop (length sign) s") (auto simp: length_takeWhile_le simp del: length_drop)
  then show ?thesis using ne le by (cases integer) auto
qed

text \<open>
  A dict keeps its keys in the order of their first insertion; a later value for a key
  replaces the earlier one in place.
\<close>

fun dict_set :: "(pystr \<times> json) list \<Rightarrow> pystr \<Rightarrow> json \<Rightarrow> (pystr \<times> json) list" where
  "dict_set [] k v = [(k, v)]"
| "dict_set (p # ps) k v = (if fst p = k then (k, v) # ps else p # dict_set ps k v)"

lemma skip_ws_shorter: "skip_ws s = d # rest \<Longrightarrow> length rest < length s"
proof -
  assume "skip_ws s = d # rest"
  then have "length (d # rest) \<le> length s"
    unfolding skip_ws_def by (metis length_dropWhile_le)
  then show ?thesis by simp
qed

lemma length_skip_ws: "length (skip_ws s) \<le> length s"
  unfolding skip_ws_def by (rule length_dropWhile_le)

text \<open>
  The scanner proper. Python's \<^verbatim>\<open>scan_once\<close>, \<^verbatim>\<open>JSONArray\<close> and \<^verbatim>\<open>JSONObject\<close> call one
  another; here the arrays and objects that are still open are kept on a stack, so that
  the three functions below only ever move forward in the text. \<open>scan_once\<close> reads a value
  that starts at the front of the text, \<open>scan_key\<close> reads a key behind its opening quote,
  the colon and the value, and \<open>value_done\<close> puts a finished value where it belongs and
  reads the comma or the closing bracket behind it. With nothing open, only white space
  may follow the value.
\<close>

datatype frame = InArray "json list" | InObject "(pystr \<times> json) list" pystr

function (sequential) scan_once :: "frame list \<Rightarrow> pystr \<Rightarrow> error + json"
  and scan_key :: "frame list \<Rightarrow> (pystr \<times> json) list \<Rightarrow> pystr \<Rightarrow> error + json"
  and value_done :: "frame list \<Rightarrow> json \<Rightarrow> pystr \<Rightarrow> error + json"
where
  "scan_once stk [] = Inl JSONDecodeError"
| "scan_once stk (c # cs) =
     (if c = 34 then
        (case scanstring cs of
           Inl e \<Rightarrow> Inl e
         | Inr (s, rest) \<Rightarrow> value_done stk (JStr s) rest)
      else if c = 123 then
        (case skip_ws cs of
           [] \<Rightarrow> Inl JSONDecodeError
         | d # rest \<Rightarrow>
             if d = 125 then value_done stk (JDict []) rest
             else if d = 34 then scan_key stk [] rest
             else Inl JSONDecodeError)
      else if c = 91 then
        (case skip_ws cs of
           [] \<Rightarrow> Inl JSONDecodeError
         | d # rest \<Rightarrow>
             if d = 93 then value_done stk (JList []) rest
             else scan_once (InArray [] # stk) (d # rest))
      else if prefix (str ''null'') (c # cs) then value_done stk JNull (drop 4 (c # cs))
      else if prefix (str ''true'') (c # cs) then value_done stk (JBool True) (drop 4 (c # cs))
      else if prefix (str ''false'') (c # cs) then value_done stk (JBool False) (drop 5 (c # cs))
      else
        (case match_number (c # cs) of
           Some (v, rest) \<Rightarrow> value_done stk v rest
         | None \<Rightarrow>
             if prefix (str ''NaN'') (c # cs)
             then value_done stk (JFloat (str ''NaN'')) (drop 3 (c # cs))
             else if prefix (str ''Infinity'') (c # cs)
             then value_done stk (JFloat (str ''Infinity'')) (drop 8 (c # cs))
             else if prefix (str ''-Infinity'') (c # cs)
             then value_done stk (JFloat (str ''-Infinity'')) (drop 9 (c # cs))
             else Inl JSONDecodeError))"
| "scan_key stk ps s =
     (case scanstring s of
        Inl e \<Rightarrow> Inl e
      | Inr (k, rest) \<Rightarrow>
          (case skip_ws rest of
             [] \<Rightarrow> Inl JSONDecodeError
           | d # r \<Rightarrow>
               if d = 58 then scan_once (InObject ps k # stk) (skip_ws r)
               else Inl JSONDecodeError))"
| "value_done [] v s = (if skip_ws s = [] then Inr v else Inl JSONDecodeError)"
| "value_done (InArray vs # stk) v s =
     (case skip_ws s of
        [] \<Rightarrow> Inl JSONDecodeError
      | d # rest \<Rightarrow>
          if d = 93 then value_done stk (JList (vs @ [v])) rest
          else if d = 44 then scan_once (InArray (vs @ [v]) # stk) (skip_ws rest)
          else Inl JSONDecodeError)"
| "value_done (InObject ps k # stk) v s =
     (case skip_ws s of
        [] \<Rightarrow> Inl JSONDecodeError
      | d # rest \<Rightarrow>
          if d = 125 then value_done stk (JDict (dict_set ps k v)) rest
          else if d = 44 then
            (case skip_ws rest of
               [] \<Rightarrow> Inl JSONDecodeError
             | q # r \<Rightarrow>
                 if q = 34 then scan_key stk (dict_set ps k v) r
                 else Inl JSONDecodeError)
          else Inl JSONDecodeError)"
  by pat_completeness auto
termination
  by (relation "measure (\<lambda>x. case x of
        Inl (stk, s) \<Rightarrow> length s
      | Inr (Inl (stk, ps, s)) \<Rightarrow> length s
      | Inr (Inr (stk, v, s)) \<Rightarrow> length s)")
    (auto dest!: scanstring_shorter skip_ws_shorter match_number_shorter
       intro: le_less_trans [OF length_skip_ws] less_trans)

definition loads :: "pystr \<Rightarrow> error + json" where
  "loads s = scan_once [] (skip_ws s)"

subsection \<open>\<^verbatim>\<open>json.dumps\<close>\<close>

text \<open>
  The encoder with its defaults: \<^verbatim>\<open>", "\<close> between items, \<^verbatim>\<open>": "\<close> behind a key, and every
  character outside the printable ASCII range escaped. What it writes for a float is
  the shortest decimal that reads back as the same IEEE double; that is taken as a
  parameter, \<open>float_repr\<close>, which maps the literal that was read to the text that is
  written. The same parameter decides whether a float counts as true.
\<close>

function nat_str :: "nat \<Rightarrow> pystr" where
  "nat_str n = (if n < 10 then [48 + n] else nat_str (n div 10) @ [48 + n mod 10])"
  by pat_completeness auto
termination
  by (relation "measure id") auto

definition int_str :: "int \<Rightarrow> pystr" where
  "int_str i = (if i < 0 then 45 # nat_str (nat (- i)) else nat_str (nat i))"

definition hex_digit :: "nat \<Rightarrow> nat" where
  "hex_digit d = (if d < 10 then 48 + d else 87 + d)"

definition hex4 :: "nat \<Rightarrow> pystr" where
  "hex4 n = [hex_digit (n div 4096 mod 16), hex_digit (n div 256 mod 16),
             hex_digit (n div 16 mod 16), hex_digit (n mod 16)]"

definition escape_ascii :: "nat \<Rightarrow> pystr" where
  "escape_ascii c =
     (if c = 92 then [92, 92]
      else if c = 34 then [92, 34]
      else if c = 8 then [92, 98]
      else if c = 12 then [92, 102]
      else if c = 10 then [92, 110]
      else if c = 13 then [92, 114]
      else if c = 9 then [92, 116]
      else if 32 \<le> c \<and> c \<le> 126 then [c]
      else if c < 0x10000 then [92, 117] @ hex4 c
      else [92, 117] @ hex4 (0xd800 + (c - 0x10000) div 1024 mod 1024) @
           [92, 117] @ hex4 (0xdc00 + (c - 0x10000) mod 1024))"

definition encode_basestring_ascii :: "pystr \<Rightarrow> pystr" where
  "encode_basestring_ascii s = [34] @ concat (map escape_ascii s) @ [34]"

fun dumps :: "(pystr \<Rightarrow> pystr) \<Rightarrow> json \<Rightarrow> pystr" where
  "dumps float_repr JNull = str ''null''"
| "dumps float_repr (JBool b) = (if b then str ''true'' else str ''false'')"
| "dumps float_repr (JInt i) = int_str i"
| "dumps float_repr (JFloat lit) = float_repr lit"
| "dumps float_repr (JStr s) = encode_basestring_ascii s"
| "dumps float_repr (JList xs) = str ''['' @ join (str '', '') (map (dumps float_repr) xs) @ str '']''"
| "dumps float_repr (JDict ps) =
     str ''{'' @
     join (str '', '')
       (map (\<lambda>p. encode_basestring_ascii (fst p) @ str '': '' @ dumps float_repr (snd p)) ps) @
     str ''}''"

subsection \<open>What the script does with a decoded record\<close>

text \<open>\<^verbatim>\<open>if x:\<close> for the values above.\<close>

fun truthy :: "(pystr \<Rightarrow> pystr) \<Rightarrow> json \<Rightarrow> bool" where
  "truthy float_repr JNull = False"
| "truthy float_repr (JBool b) = b"
| "truthy float_repr (JInt i) = (i \<noteq> 0)"
| "truthy float_repr (JFloat lit) =
     (float_repr lit \<noteq> str ''0.0'' \<and> float_repr lit \<noteq> str ''-0.0'')"
| "truthy float_repr (JStr s) = (s \<noteq> [])"
| "truthy float_repr (JList xs) = (xs \<noteq> [])"
| "truthy float_repr (JDict ps) = (ps \<noteq> [])"

text \<open>
  \<^verbatim>\<open>data[2]\<close>: the third element of a list, the third character of a string; no key of a
  decoded dict is the integer 2; anything else cannot be subscripted.
\<close>

fun getitem2 :: "json \<Rightarrow> error + json" where
  "getitem2 (JList xs) = (if 2 < length xs then Inr (xs ! 2) else Inl IndexError)"
| "getitem2 (JStr s) = (if 2 < length s then Inr (JStr [s ! 2]) else Inl IndexError)"
| "getitem2 (JDict ps) = Inl KeyError"
| "getitem2 _ = Inl TypeError"

text \<open>\<^verbatim>\<open>x.split("\r\n")\<close>: only a string has the method.\<close>

fun split_crlf :: "json \<Rightarrow> error + pystr list" where
  "split_crlf (JStr s) = Inr (split CRLF s)"
| "split_crlf _ = Inl AttributeError"

text \<open>
  \<^verbatim>\<open>package_row[2] = v\<close>. The row is a value \<^verbatim>\<open>data[2]\<close> has succeeded on, so a list of at
  least three elements or a string; a string does not support item assignment.
\<close>

fun setitem2 :: "json \<Rightarrow> json \<Rightarrow> error + json" where
  "setitem2 (JList xs) v = (if 2 < length xs then Inr (JList (xs[2 := v])) else Inl IndexError)"
| "setitem2 _ v = Inl TypeError"

subsection \<open>The third loop: collecting the package-addition records\<close>

record scan_state =
  packages :: "pystr list"
  package_row :: json
  package_del :: "nat list"

text \<open>\<^verbatim>\<open>data = json.loads(lines[i])\<close> and \<^verbatim>\<open>data[2].split("\r\n")\<close>.\<close>

definition decode_entries :: "pystr \<Rightarrow> error + json \<times> pystr list" where
  "decode_entries line =
     (case loads line of
        Inl e \<Rightarrow> Inl e
      | Inr data \<Rightarrow>
          (case getitem2 data of
             Inl e \<Rightarrow> Inl e
           | Inr payload \<Rightarrow>
               (case split_crlf payload of
                  Inl e \<Rightarrow> Inl e
                | Inr entries \<Rightarrow> Inr (data, entries))))"

definition scan_step :: "pystr list \<Rightarrow> nat \<Rightarrow> scan_state \<Rightarrow> error + scan_state" where
  "scan_step lines i st =
     (if contains marker (lines ! i) then
        (case decode_entries (lines ! i) of
           Inl e \<Rightarrow> Inl e
         | Inr (data, entries) \<Rightarrow>
             Inr \<lparr>packages = packages st @ entries,
                  package_row = (if package_row st = JNull then data else package_row st),
                  package_del = package_del st @ [i]\<rparr>)
      else Inr st)"

fun scan_loop :: "pystr list \<Rightarrow> nat list \<Rightarrow> scan_state \<Rightarrow> error + scan_state" where
  "scan_loop lines [] st = Inr st"
| "scan_loop lines (i # is) st =
     (case scan_step lines i st of Inl e \<Rightarrow> Inl e | Inr st' \<Rightarrow> scan_loop lines is st')"

subsection \<open>The summary record, the deletions and the output\<close>

text \<open>\<^verbatim>\<open>packages[:3] + ["..."] + packages[-3:]\<close>.\<close>

definition ellipsize :: "pystr list \<Rightarrow> pystr list" where
  "ellipsize ps = take 3 ps @ [dots] @ drop (length ps - 3) ps"

text \<open>The block under \<^verbatim>\<open>if package_row:\<close>.\<close>

definition summarize :: "(pystr \<Rightarrow> pystr) \<Rightarrow> scan_state \<Rightarrow> pystr list \<Rightarrow> error + pystr list" where
  "summarize float_repr st lines =
     (if truthy float_repr (package_row st) then
        (case setitem2 (package_row st) (JStr (join CRLF (ellipsize (packages st)))) of
           Inl e \<Rightarrow> Inl e
         | Inr row \<Rightarrow>
             (case package_del st of
                [] \<Rightarrow> Inl IndexError
              | d # _ \<Rightarrow>
                  if d < length lines
                  then Inr (lines[d := dumps float_repr row @ [10]])
                  else Inl IndexError))
      else Inr lines)"

text \<open>\<^verbatim>\<open>del lines[i]\<close> for each index of the list handed over, in its order.\<close>

fun delete_rows :: "nat list \<Rightarrow> pystr list \<Rightarrow> error + pystr list" where
  "delete_rows [] lines = Inr lines"
| "delete_rows (i # is) lines =
     (if i < length lines then delete_rows is (take i lines @ drop (Suc i) lines)
      else Inl IndexError)"

text \<open>The collapser: the scan, the summary, then the deletions from the highest index down.\<close>

definition collapse :: "(pystr \<Rightarrow> pystr) \<Rightarrow> pystr list \<Rightarrow> error + pystr list" where
  "collapse float_repr lines =
     (case scan_loop lines [0..<length lines]
             \<lparr>packages = [], package_row = JNull, package_del = []\<rparr> of
        Inl e \<Rightarrow> Inl e
      | Inr st \<Rightarrow>
          (case summarize float_repr st lines of
             Inl e \<Rightarrow> Inl e
           | Inr lines' \<Rightarrow> delete_rows (rev (drop 1 (package_del st))) lines'))"

text \<open>
  The whole script: the value is the text \<^verbatim>\<open>print\<close> writes (the lines but the last two,
  and the line feed \<^verbatim>\<open>print\<close> adds), or the exception that ended the run before anything
  was written.
\<close>

definition main :: "(pystr \<Rightarrow> pystr) \<Rightarrow> pystr list \<Rightarrow> error + pystr" where
  "main float_repr lines =
     (case collapse float_repr (recolor_pass (annotate_pass lines)) of
        Inl e \<Rightarrow> Inl e
      | Inr lines' \<Rightarrow> Inr (concat (take (length lines' - 2) lines') @ [10]))"

subsection \<open>Notions used in the proofs\<close>

text \<open>The line behind line \<open>i\<close>, if there is one.\<close>

definition successor :: "'a list \<Rightarrow> nat \<Rightarrow> 'a option" where
  "successor ls i = (if i + 1 < length ls then Some (ls ! (i + 1)) else None)"

text \<open>
  What the first loop does to the text of one line before it annotates the line breaks,
  given the line's successor; \<open>annotate_pass_nth\<close> below shows that this is what the loop
  computes.
\<close>

definition rewrite_line :: "pystr \<Rightarrow> pystr option \<Rightarrow> pystr" where
  "rewrite_line l nxt =
     (case nxt of None \<Rightarrow> l
      | Some n \<Rightarrow>
          if contains prompt_end l then
            (let a = (if contains bare_newline n then replace prompt [] l else l)
             in if contains hash_mark n then replace prompt dim a else a)
          else l)"

definition annotate :: "pystr \<Rightarrow> pystr" where
  "annotate l = replace crlf_esc (crlf_esc @ reset) l"

text \<open>
  A pattern is border-free when no proper non-empty prefix of it is also a suffix: two
  occurrences of such a pattern never overlap.
\<close>

definition border_free :: "'a list \<Rightarrow> bool" where
  "border_free p \<longleftrightarrow> (\<forall>k. 0 < k \<and> k < length p \<longrightarrow> take k p \<noteq> drop (length p - k) p)"

text \<open>
  The entries a package-addition line contributes (none when it does not decode), and the
  entries of all such lines of a recording, in order: what the third loop accumulates.
\<close>

definition entries_of :: "pystr \<Rightarrow> pystr list" where
  "entries_of line = (case decode_entries line of Inl e \<Rightarrow> [] | Inr (data, entries) \<Rightarrow> entries)"

definition all_entries :: "pystr list \<Rightarrow> pystr list" where
  "all_entries ls = concat (map entries_of (filter (contains marker) ls))"


text \<open>A decoded piece put in front of what the scanner returns for the rest.\<close>

definition prepend_str :: "pystr \<Rightarrow> error + pystr \<times> pystr \<Rightarrow> error + pystr \<times> pystr" where
  "prepend_str d r = (case r of Inl e \<Rightarrow> Inl e | Inr (s, rest) \<Rightarrow> Inr (d @ s, rest))"

subsection \<open>Example recordings\<close>

definition ex_prompt_lines :: "pystr list" where
  \<open>ex_prompt_lines =
     [str ''["o","","$ "]'' @ [10],
      str ''["o","","'' @ crlf_esc @ str ''"]'' @ [10],
      str ''["o","","$ "]'' @ [10],
      str ''["o","","#"]'' @ [10],
      str ''["o","","$ "]'' @ [10]]\<close>

definition ex_joined_prompt :: "pystr list" where
  \<open>ex_joined_prompt =
     [str ''["o","","$$  $ "]'' @ [10],
      str ''["o","","'' @ crlf_esc @ str ''"]'' @ [10]]\<close>

definition ex_no_newline :: "pystr list" where
  \<open>ex_no_newline =
     [str ''["o","","$ "]'' @ [10],
      str ''["o","","#"]'' @ [10]]\<close>

definition ex_one_prompt :: "pystr list" where
  \<open>ex_one_prompt = [str ''["o","","$ "]'' @ [10]]\<close>

definition ex_one_package :: "pystr list" where
  \<open>ex_one_package = [str ''["o","","go: added github.com/a"]'' @ [10]]\<close>

definition ex_bad_json :: "pystr list" where
  \<open>ex_bad_json = [str ''["o","","ok"]'' @ [10], str ''["o","","go: added github.com/a'' @ [10]]\<close>

definition ex_short_array :: "pystr list" where
  \<open>ex_short_array = [str ''["o","go: added github.com/a"]'' @ [10], str ''["o","","ok"]'' @ [10]]\<close>

definition ex_packages :: "pystr list" where
  \<open>ex_packages =
     [str ''{"version": 2}'' @ [10],
      str ''["o","","go: added github.com/a v1'' @ crlf_esc @ str ''go: added github.com/b v1'' @ crlf_esc @ str ''"]'' @ [10],
      str ''["o","","plain"]'' @ [10],
      str ''["o","","go: added github.com/c v1'' @ crlf_esc @ str ''go: added github.com/d v1'' @ crlf_esc @ str ''"]'' @ [10],
      str ''["o","","exit'' @ crlf_esc @ str ''"]'' @ [10],
      str ''["o","","logout"]'' @ [10]]\<close>

definition ex_packages_out :: "pystr list" where
  \<open>ex_packages_out =
     [str ''{"version": 2}'' @ [10],
      str ''["o", "", "go: added github.com/a v1'' @ crlf_esc @ reset @
        str ''go: added github.com/b v1'' @ crlf_esc @ reset @ crlf_esc @ str ''...'' @ crlf_esc @
        str ''go: added github.com/c v1'' @ crlf_esc @ reset @
        str ''go: added github.com/d v1'' @ crlf_esc @ reset @ str ''"]'' @ [10],
      str ''["o","","plain"]'' @ [10],
      str ''["o","","exit'' @ crlf_esc @ reset @ str ''"]'' @ [10],
      str ''["o","","logout"]'' @ [10]]\<close>




section \<open>Properties of the string operations\<close>

lemma contains_iff: "contains p s \<longleftrightarrow> (\<exists>u v. s = u @ p @ v)"
proof (induction s)
  case Nil
  then show ?case by auto
next
  case (Cons c cs)
  show ?case
  proof
    assume "contains p (c # cs)"
    then consider "prefix p (c # cs)" | "contains p cs" by auto
    then show "\<exists>u v. c # cs = u @ p @ v"
    proof cases
      case 1
      then obtain v where "c # cs = p @ v" by (auto simp: prefix_def)
      then have "c # cs = [] @ p @ v" by simp
      then show ?thesis by blast
    next
      case 2
      with Cons.IH obtain u v where "cs = u @ p @ v" by auto
      then have "c # cs = (c # u) @ p @ v" by simp
      then show ?thesis by blast
    qed
  next
    assume "\<exists>u v. c # cs = u @ p @ v"
    then obtain u v where uv: "c # cs = u @ p @ v" by auto
    show "contains p (c # cs)"
    proof (cases u)
      case Nil
      with uv have "prefix p (c # cs)" by (simp add: prefix_def)
      then show ?thesis by simp
    next
      case (Cons a u')
      with uv have "cs = u' @ p @ v" by simp
      with Cons.IH have "contains p cs" by blast
      then show ?thesis by simp
    qed
  qed
qed

lemma contains_Nil [simp]: "contains [] s"
  by (cases s) auto

lemma replace_absent: "\<not> contains old s \<Longrightarrow> replace old new s = s"
proof (induction old new s rule: replace.induct)
  case (1 old new)
  then show ?case by auto
next
  case (2 old new c cs)
  then show ?case by (cases "old = []") auto
qed

lemma length_annotate_step [simp]: "length (annotate_step i ls) = length ls"
  by (simp add: annotate_step_def Let_def)

lemma length_recolor_step [simp]: "length (recolor_step i ls) = length ls"
  by (simp add: recolor_step_def)

lemma fold_recolor: "k \<le> length ls \<Longrightarrow>
  fold recolor_step [0..<k] ls = map (replace prompt blue) (take k ls) @ drop k ls"
proof (induction k)
  case 0
  then show ?case by simp
next
  case (Suc k)
  then have k: "k < length ls" by simp
  have "fold recolor_step [0..<Suc k] ls = recolor_step k (fold recolor_step [0..<k] ls)"
    by simp
  also have "\<dots> = recolor_step k (map (replace prompt blue) (take k ls) @ drop k ls)"
    using Suc by simp
  also have "\<dots> = map (replace prompt blue) (take (Suc k) ls) @ drop (Suc k) ls"
    using k by (simp add: recolor_step_def list_update_append nth_append take_Suc_conv_app_nth
        Cons_nth_drop_Suc [symmetric])
  finally show ?case .
qed

lemma recolor_pass_map: "recolor_pass ls = map (replace prompt blue) ls"
  by (simp add: recolor_pass_def fold_recolor)

lemma annotate_step_eq:
  "i < length ls \<Longrightarrow>
   annotate_step i ls = ls[i := annotate (rewrite_line (ls ! i) (successor ls i))]"
  by (auto simp: annotate_step_def rewrite_line_def successor_def annotate_def Let_def)

lemma fold_annotate: "k \<le> length ls \<Longrightarrow>
  fold annotate_step [0..<k] ls =
    map (\<lambda>j. annotate (rewrite_line (ls ! j) (successor ls j))) [0..<k] @ drop k ls"
proof (induction k)
  case 0
  then show ?case by simp
next
  case (Suc k)
  then have k: "k < length ls" by simp
  let ?f = "\<lambda>j. annotate (rewrite_line (ls ! j) (successor ls j))"
  let ?m = "map ?f [0..<k] @ drop k ls"
  have len: "length ?m = length ls" using k by simp
  have at_k: "?m ! k = ls ! k" using k by (simp add: nth_append)
  have succ: "successor ?m k = successor ls k"
    using k by (auto simp: successor_def nth_append)
  have "fold annotate_step [0..<Suc k] ls = annotate_step k ?m"
    using Suc by simp
  also have "\<dots> = ?m[k := ?f k]"
    using k len by (simp only: annotate_step_eq at_k succ)
  also have "\<dots> = map ?f [0..<Suc k] @ drop (Suc k) ls"
    using k by (simp add: list_update_append Cons_nth_drop_Suc [symmetric])
  finally show ?case .
qed

lemma annotate_pass_nth:
  "i < length ls \<Longrightarrow>
   annotate_pass ls ! i = annotate (rewrite_line (ls ! i) (successor ls i))"
  by (simp add: annotate_pass_def fold_annotate)

lemma length_annotate_pass [simp]: "length (annotate_pass ls) = length ls"
  by (simp add: annotate_pass_def fold_annotate)

lemma contains_appendI1: "contains q a \<Longrightarrow> contains q (a @ b)"
  unfolding contains_iff by (metis append.assoc)

lemma contains_appendI2: "contains q b \<Longrightarrow> contains q (a @ b)"
  unfolding contains_iff by (metis append.assoc)

lemma border_free_no_overlap:
  assumes bf: "border_free p" and u: "u \<noteq> []" and lt: "length u < length p"
    and pre: "prefix p (u @ p @ v)"
  shows False
proof -
  define k where "k = length p - length u"
  have k: "0 < k" "k < length p" using u lt by (cases u; auto simp: k_def)+
  from pre obtain zs where "u @ p @ v = p @ zs"
    by (auto simp: prefix_def)
  then have "take (length p) (u @ p @ v) = take (length p) (p @ zs)"
    by simp
  then have "take (length p) (u @ p @ v) = p"
    by simp
  then have "u @ take k p = p" using lt by (simp add: k_def)
  then have "drop (length u) p = take k p"
    by (metis append_eq_conv_conj)
  moreover have "length p - k = length u" using lt by (simp add: k_def)
  ultimately have "take k p = drop (length p - k) p" by simp
  with bf k show False by (auto simp: border_free_def)
qed

lemma replace_occurrence:
  assumes bf: "border_free p" and ne: "p \<noteq> []"
  shows "replace p n (u @ p @ v) = replace p n u @ n @ replace p n v"
proof (induction u rule: length_induct)
  case (1 u)
  show ?case
  proof (cases u)
    case Nil
    obtain c cs where p: "p = c # cs" using ne by (cases p) auto
    have "replace p n (p @ v) = n @ replace p n (drop (length p) (p @ v))"
      using ne by (simp add: p)
    then show ?thesis using Nil ne by simp
  next
    case (Cons c cs)
    show ?thesis
    proof (cases "prefix p (u @ p @ v)")
      case True
      have "\<not> length u < length p"
        using border_free_no_overlap [OF bf _ _ True] Cons by auto
      then have le: "length p \<le> length u" by simp
      with True have pu: "prefix p u"
        by (metis prefix_length_prefix prefixI)
      have "replace p n (u @ p @ v) = n @ replace p n (drop (length p) (u @ p @ v))"
        using True ne Cons by simp
      also have "drop (length p) (u @ p @ v) = drop (length p) u @ p @ v"
        using le by simp
      also have "replace p n (drop (length p) u @ p @ v) =
          replace p n (drop (length p) u) @ n @ replace p n v"
        using 1 ne Cons by simp
      finally have "replace p n (u @ p @ v) =
          (n @ replace p n (drop (length p) u)) @ n @ replace p n v" by simp
      moreover have "n @ replace p n (drop (length p) u) = replace p n u"
        using pu ne Cons by simp
      ultimately show ?thesis by simp
    next
      case False
      then have npu: "\<not> prefix p u"
        by (meson prefix_append prefix_order.trans prefixI)
      have "replace p n (u @ p @ v) = c # replace p n (cs @ p @ v)"
        using False ne Cons by simp
      also have "\<dots> = (c # replace p n cs) @ n @ replace p n v"
        using 1 Cons by simp
      also have "c # replace p n cs = replace p n u"
        using npu ne Cons by simp
      finally show ?thesis by simp
    qed
  qed
qed

lemma border_free_crlf_esc: "border_free crlf_esc"
  unfolding border_free_def crlf_esc_def
proof (intro allI impI)
  fix k :: nat
  assume "0 < k \<and> k < length ([92] @ str ''r'' @ [92] @ str ''n'')"
  then have "k = 1 \<or> k = 2 \<or> k = 3" by auto
  then show "take k ([92] @ str ''r'' @ [92] @ str ''n'') \<noteq>
     drop (length ([92] @ str ''r'' @ [92] @ str ''n'') - k) ([92] @ str ''r'' @ [92] @ str ''n'')"
    by auto
qed

lemma border_free_prompt: "border_free prompt"
  unfolding border_free_def prompt_def
proof (intro allI impI)
  fix k :: nat
  assume "0 < k \<and> k < length (str ''$ '')"
  then have "k = 1" by auto
  then show "take k (str ''$ '') \<noteq> drop (length (str ''$ '') - k) (str ''$ '')"
    by auto
qed

lemma prefix_short_append:
  "prefix q (a @ b) \<longleftrightarrow> prefix q a \<or> (\<exists>q'. q = a @ q' \<and> q' \<noteq> [] \<and> prefix q' b)"
proof
  assume "prefix q (a @ b)"
  then obtain zs where "a @ b = q @ zs" by (auto simp: prefix_def)
  then consider us where "a = q @ us" | us where "us \<noteq> []" "a @ us = q" "b = us @ zs"
    by (auto simp: append_eq_append_conv2) (metis append.right_neutral)
  then show "prefix q a \<or> (\<exists>q'. q = a @ q' \<and> q' \<noteq> [] \<and> prefix q' b)"
    by cases auto
next
  assume "prefix q a \<or> (\<exists>q'. q = a @ q' \<and> q' \<noteq> [] \<and> prefix q' b)"
  then show "prefix q (a @ b)"
    by (auto simp: prefix_def)
qed

lemma iso_crlf_dim:
  "contains crlf_esc (a @ dim @ b) \<longleftrightarrow> contains crlf_esc a \<or> contains crlf_esc b"
proof (induction a)
  case Nil
  then show ?case by (simp add: crlf_esc_def dim_def)
next
  case (Cons c a)
  have "prefix crlf_esc ((c # a) @ dim @ b) \<longleftrightarrow> prefix crlf_esc (c # a)"
    unfolding prefix_short_append [of _ "c # a"]
    by (auto simp: crlf_esc_def dim_def Cons_eq_append_conv)
  with Cons show ?case by simp
qed

lemma iso_crlf_blue:
  "contains crlf_esc (a @ blue @ b) \<longleftrightarrow> contains crlf_esc a \<or> contains crlf_esc b"
proof (induction a)
  case Nil
  then show ?case by (simp add: crlf_esc_def blue_def)
next
  case (Cons c a)
  have "prefix crlf_esc ((c # a) @ blue @ b) \<longleftrightarrow> prefix crlf_esc (c # a)"
    unfolding prefix_short_append [of _ "c # a"]
    by (auto simp: crlf_esc_def blue_def Cons_eq_append_conv)
  with Cons show ?case by simp
qed

lemma iso_prompt_annot:
  "contains prompt (a @ (crlf_esc @ reset) @ b) \<longleftrightarrow> contains prompt a \<or> contains prompt b"
proof (induction a)
  case Nil
  then show ?case by (simp add: crlf_esc_def reset_def prompt_def)
next
  case (Cons c a)
  have "prefix prompt ((c # a) @ (crlf_esc @ reset) @ b) \<longleftrightarrow> prefix prompt (c # a)"
    unfolding prefix_short_append [of _ "c # a"]
    by (auto simp: crlf_esc_def reset_def prompt_def Cons_eq_append_conv)
  with Cons show ?case by simp
qed

lemma replace_no_new:
  "p \<noteq> [] \<Longrightarrow> (\<And>a b. contains q (a @ n @ b) \<longleftrightarrow> contains q a \<or> contains q b) \<Longrightarrow>
   \<not> contains q (L @ s) \<Longrightarrow> \<not> contains q (L @ replace p n s)"
proof (induction p n s arbitrary: L rule: replace.induct)
  case (1 old new)
  then show ?case by simp
next
  case (2 old new c cs)
  note ne = \<open>old \<noteq> []\<close>
  note iso = "2.prems"(2)
  show ?case
  proof (cases "prefix old (c # cs)")
    case True
    then obtain rest where rest: "c # cs = old @ rest" by (auto simp: prefix_def)
    then have d: "drop (length old) (c # cs) = rest" by (metis append_eq_conv_conj)
    have nL: "\<not> contains q L" using "2.prems"(3) contains_appendI1 by blast
    have "\<not> contains q ([] @ rest)"
      using "2.prems"(3) rest contains_appendI2 by (metis append_Nil)
    then have "\<not> contains q ([] @ replace old new rest)"
      using "2.IH"(2) [of "[]"] True ne iso d by auto
    then show ?thesis
      using True ne nL d iso by (simp del: replace.simps add: replace.simps(2) [of old new c cs])
  next
    case False
    have "\<not> contains q ((L @ [c]) @ cs)" using "2.prems"(3) by simp
    then have "\<not> contains q ((L @ [c]) @ replace old new cs)"
      using "2.IH"(3) [of "L @ [c]"] False ne iso by auto
    then show ?thesis using False ne by simp
  qed
qed

lemma replace_Cons_no:
  "old \<noteq> [] \<Longrightarrow> \<not> prefix old (c # cs) \<Longrightarrow> replace old new (c # cs) = c # replace old new cs"
  by simp


lemma contains2_append:
  "contains [x, y] (a @ b) \<longleftrightarrow>
     contains [x, y] a \<or> contains [x, y] b \<or> (a \<noteq> [] \<and> last a = x \<and> b \<noteq> [] \<and> hd b = y)"
proof (induction a)
  case Nil
  then show ?case by simp
next
  case (Cons c a)
  have "prefix [x, y] ((c # a) @ b) \<longleftrightarrow>
      prefix [x, y] (c # a) \<or> (a = [] \<and> c = x \<and> b \<noteq> [] \<and> hd b = y)"
    by (cases a; cases b) auto
  with Cons show ?case by (cases a) auto
qed

lemma replace2_all_gone:
  assumes n: "\<not> contains [x, y] n" "n \<noteq> []" "hd n \<noteq> y" "last n \<noteq> x"
  shows "\<not> contains [x, y] L \<Longrightarrow> (L \<noteq> [] \<and> last L = x \<longrightarrow> s = [] \<or> hd s \<noteq> y) \<Longrightarrow>
    \<not> contains [x, y] (L @ replace [x, y] n s)"
proof (induction s arbitrary: L rule: length_induct)
  case (1 s)
  show ?case
  proof (cases s)
    case Nil
    then show ?thesis using 1 by simp
  next
    case (Cons c cs)
    show ?thesis
    proof (cases "prefix [x, y] s")
      case True
      then obtain rest where rest: "s = x # y # rest" by (auto simp: prefix_def)
      have a: "\<not> contains [x, y] (L @ n)"
        using 1(2) n by (simp add: contains2_append)
      have "\<not> contains [x, y] ((L @ n) @ replace [x, y] n rest)"
        using 1(1) [rule_format, of rest "L @ n"] a n rest by simp
      then show ?thesis using rest by simp
    next
      case False
      have a: "\<not> contains [x, y] (L @ [c])"
        using 1(2,3) Cons by (auto simp: contains2_append)
      have b: "L @ [c] \<noteq> [] \<and> last (L @ [c]) = x \<longrightarrow> cs = [] \<or> hd cs \<noteq> y"
        using False Cons by (cases cs) auto
      have "\<not> contains [x, y] ((L @ [c]) @ replace [x, y] n cs)"
        using 1(1) [rule_format, of cs "L @ [c]"] a b Cons by simp
      moreover have "replace [x, y] n s = c # replace [x, y] n cs"
        using False unfolding Cons by (intro replace_Cons_no) auto
      ultimately show ?thesis by simp
    qed
  qed
qed

lemma no_prompt_after_blue: "\<not> contains prompt (replace prompt blue s)"
  using replace2_all_gone [of 36 32 blue "[]" s]
  by (simp add: prompt_def blue_def)

lemma no_prompt_after_dim: "\<not> contains prompt (replace prompt dim s)"
  using replace2_all_gone [of 36 32 dim "[]" s]
  by (simp add: prompt_def dim_def)

lemma replace2_append:
  assumes "\<not> (a \<noteq> [] \<and> last a = x \<and> b \<noteq> [] \<and> hd b = y)"
  shows "replace [x, y] n (a @ b) = replace [x, y] n a @ replace [x, y] n b"
  using assms
proof (induction a rule: length_induct)
  case (1 a)
  show ?case
  proof (cases a)
    case Nil
    then show ?thesis by simp
  next
    case (Cons c cs)
    show ?thesis
    proof (cases "prefix [x, y] a")
      case True
      then obtain rest where rest: "a = x # y # rest" by (auto simp: prefix_def)
      have "\<not> (rest \<noteq> [] \<and> last rest = x \<and> b \<noteq> [] \<and> hd b = y)"
        using 1(2) rest by auto
      then have "replace [x, y] n (rest @ b) = replace [x, y] n rest @ replace [x, y] n b"
        using 1(1) rest by simp
      then show ?thesis using rest by simp
    next
      case False
      have np: "\<not> prefix [x, y] (a @ b)"
        using False 1(2) Cons by (cases cs; cases b) auto
      have "\<not> (cs \<noteq> [] \<and> last cs = x \<and> b \<noteq> [] \<and> hd b = y)"
        using 1(2) Cons by auto
      then have "replace [x, y] n (cs @ b) = replace [x, y] n cs @ replace [x, y] n b"
        using 1(1) Cons by simp
      moreover have "replace [x, y] n a = c # replace [x, y] n cs"
        using False unfolding Cons by (intro replace_Cons_no) auto
      moreover have "replace [x, y] n (a @ b) = c # replace [x, y] n (cs @ b)"
        using np unfolding Cons append_Cons by (intro replace_Cons_no) auto
      ultimately show ?thesis by simp
    qed
  qed
qed

lemma replace_prompt_around_crlf:
  "replace prompt n (u @ crlf_esc @ v) = replace prompt n u @ crlf_esc @ replace prompt n v"
proof -
  have "replace prompt n (u @ crlf_esc @ v) = replace prompt n u @ replace prompt n (crlf_esc @ v)"
    unfolding prompt_def by (simp add: replace2_append crlf_esc_def)
  moreover have "replace prompt n (crlf_esc @ v) = crlf_esc @ replace prompt n v"
    by (simp add: prompt_def crlf_esc_def)
  ultimately show ?thesis by simp
qed

lemma annotate_occurrence:
  "annotate (u @ crlf_esc @ v) = annotate u @ crlf_esc @ reset @ annotate v"
  unfolding annotate_def
  using replace_occurrence [OF border_free_crlf_esc, of "crlf_esc @ reset" u v]
  by (simp add: crlf_esc_def)

lemma prompt_end_has_prompt: "contains prompt_end l \<Longrightarrow> contains prompt l"
proof -
  assume "contains prompt_end l"
  then obtain u v where "l = u @ prompt_end @ v" by (auto simp: contains_iff)
  then have "l = u @ prompt @ (str ''\"]'' @ v)"
    by (simp add: prompt_end_def prompt_def)
  then show ?thesis unfolding contains_iff by blast
qed

lemma bare_newline_has_crlf: "contains bare_newline l \<Longrightarrow> contains crlf_esc l"
proof -
  assume "contains bare_newline l"
  then obtain u v where "l = u @ bare_newline @ v" by (auto simp: contains_iff)
  then have "l = (u @ [34]) @ crlf_esc @ ([34, 93] @ v)"
    by (simp add: bare_newline_def crlf_esc_def)
  then show ?thesis unfolding contains_iff by blast
qed

lemma no_crlf_after_dim: "\<not> contains crlf_esc s \<Longrightarrow> \<not> contains crlf_esc (replace prompt dim s)"
  using replace_no_new [of prompt crlf_esc dim "[]" s] iso_crlf_dim
  by (simp add: prompt_def)

lemma no_crlf_after_blue: "\<not> contains crlf_esc s \<Longrightarrow> \<not> contains crlf_esc (replace prompt blue s)"
  using replace_no_new [of prompt crlf_esc blue "[]" s] iso_crlf_blue
  by (simp add: prompt_def)

lemma no_prompt_after_annotate: "\<not> contains prompt s \<Longrightarrow> \<not> contains prompt (annotate s)"
  unfolding annotate_def
  using replace_no_new [of crlf_esc prompt "crlf_esc @ reset" "[]" s] iso_prompt_annot
  by (simp add: crlf_esc_def)

lemma rewrite_line_no_crlf:
  assumes "\<not> contains crlf_esc l" and "\<And>n. nxt = Some n \<Longrightarrow> \<not> contains crlf_esc n"
  shows "\<not> contains crlf_esc (rewrite_line l nxt)"
  using assms
  by (auto simp: rewrite_line_def Let_def no_crlf_after_dim dest: bare_newline_has_crlf
      split: option.splits)

lemma successor_in_set: "successor ls i = Some n \<Longrightarrow> n \<in> set ls"
  by (auto simp: successor_def split: if_splits)

lemma pass_nth:
  "i < length ls \<Longrightarrow> recolor_pass (annotate_pass ls) ! i =
     replace prompt blue (annotate (rewrite_line (ls ! i) (successor ls i)))"
  by (simp add: recolor_pass_map annotate_pass_nth)

lemma pass_fixed:
  assumes "\<And>l. l \<in> set ls \<Longrightarrow> \<not> contains prompt l"
    and "\<And>l. l \<in> set ls \<Longrightarrow> \<not> contains crlf_esc l"
  shows "recolor_pass (annotate_pass ls) = ls"
proof (rule nth_equalityI)
  show "length (recolor_pass (annotate_pass ls)) = length ls"
    by (simp add: recolor_pass_map)
next
  fix i assume "i < length (recolor_pass (annotate_pass ls))"
  then have i: "i < length ls" by (simp add: recolor_pass_map)
  then have mem: "ls ! i \<in> set ls" by simp
  have "\<not> contains prompt_end (ls ! i)"
    using assms(1) [OF mem] prompt_end_has_prompt by blast
  then have "rewrite_line (ls ! i) (successor ls i) = ls ! i"
    by (simp add: rewrite_line_def split: option.splits)
  moreover have "annotate (ls ! i) = ls ! i"
    unfolding annotate_def using assms(2) [OF mem] by (rule replace_absent)
  moreover have "replace prompt blue (ls ! i) = ls ! i"
    using assms(1) [OF mem] by (rule replace_absent)
  ultimately show "recolor_pass (annotate_pass ls) ! i = ls ! i"
    using i by (simp add: pass_nth)
qed

section \<open>Properties of the collapser\<close>

lemma decode_entries_cases:
  assumes "decode_entries l = Inr (data, es)"
  shows "(\<exists>xs p. data = JList xs \<and> 2 < length xs \<and> xs ! 2 = JStr p \<and> es = split CRLF p) \<or>
         (\<exists>s. data = JStr s \<and> 2 < length s \<and> es = split CRLF [s ! 2])"
proof -
  from assms obtain payload where g: "getitem2 data = Inr payload"
    and s: "split_crlf payload = Inr es"
    by (auto simp: decode_entries_def split: sum.splits)
  from s obtain p where p: "payload = JStr p" "es = split CRLF p"
    by (cases payload) auto
  from g p show ?thesis
    by (cases data) (auto split: if_splits)
qed

lemma decode_entries_not_null: "decode_entries l = Inr (data, es) \<Longrightarrow> data \<noteq> JNull"
  using decode_entries_cases by fastforce

lemma decode_entries_truthy: "decode_entries l = Inr (data, es) \<Longrightarrow> truthy fr data"
  using decode_entries_cases [of l data es] by auto

lemma scan_step_marker:
  "contains marker (ls ! i) \<Longrightarrow> decode_entries (ls ! i) = Inr (data, es) \<Longrightarrow>
   scan_step ls i st =
     Inr \<lparr>packages = packages st @ es,
          package_row = (if package_row st = JNull then data else package_row st),
          package_del = package_del st @ [i]\<rparr>"
  by (simp add: scan_step_def)

lemma scan_step_other: "\<not> contains marker (ls ! i) \<Longrightarrow> scan_step ls i st = Inr st"
  by (simp add: scan_step_def)

lemma scan_step_error:
  "contains marker (ls ! i) \<Longrightarrow> decode_entries (ls ! i) = Inl e \<Longrightarrow> scan_step ls i st = Inl e"
  by (simp add: scan_step_def)

lemma scan_loop_eq:
  assumes "map (\<lambda>i. decode_entries (ls ! i)) (filter (\<lambda>i. contains marker (ls ! i)) is) = map Inr des"
  shows "scan_loop ls is st =
     Inr \<lparr>packages = packages st @ concat (map snd des),
          package_row = (if package_row st \<noteq> JNull then package_row st
                         else case des of [] \<Rightarrow> JNull | de # _ \<Rightarrow> fst de),
          package_del = package_del st @ filter (\<lambda>i. contains marker (ls ! i)) is\<rparr>"
  using assms
proof (induction "is" arbitrary: st des)
  case Nil
  then show ?case by simp
next
  case (Cons i "is")
  show ?case
  proof (cases "contains marker (ls ! i)")
    case False
    with Cons show ?thesis by (simp add: scan_step_other)
  next
    case True
    with Cons.prems obtain de des' where des: "des = de # des'"
      and de: "decode_entries (ls ! i) = Inr de"
      and rest: "map (\<lambda>i. decode_entries (ls ! i)) (filter (\<lambda>i. contains marker (ls ! i)) is) =
                 map Inr des'"
      by (cases des) auto
    obtain data es where [simp]: "de = (data, es)" by (cases de)
    have nn: "data \<noteq> JNull" using de decode_entries_not_null by simp
    show ?thesis
      using True de nn Cons.IH [OF rest]
      by (simp add: scan_step_marker des)
  qed
qed

lemma scan_loop_error:
  assumes "i \<in> set is" "contains marker (ls ! i)" "decode_entries (ls ! i) = Inl e"
  shows "\<exists>e'. scan_loop ls is st = Inl e'"
  using assms
proof (induction "is" arbitrary: st)
  case Nil
  then show ?case by simp
next
  case (Cons j "is")
  show ?case
  proof (cases "scan_step ls j st")
    case (Inl e')
    then show ?thesis by simp
  next
    case (Inr st')
    with Cons have "i \<noteq> j" by (auto simp: scan_step_error)
    with Cons Inr show ?thesis by simp
  qed
qed

lemma scan_loop_decodes:
  assumes "scan_loop ls is st = Inr st'"
  shows "\<exists>des. map (\<lambda>i. decode_entries (ls ! i)) (filter (\<lambda>i. contains marker (ls ! i)) is) = map Inr des"
  using assms
proof (induction "is" arbitrary: st)
  case Nil
  then show ?case by simp
next
  case (Cons i "is")
  from Cons.prems obtain st1 where s1: "scan_step ls i st = Inr st1"
    and s2: "scan_loop ls is st1 = Inr st'"
    by (auto split: sum.splits)
  from Cons.IH [OF s2] obtain des where
    des: "map (\<lambda>i. decode_entries (ls ! i)) (filter (\<lambda>i. contains marker (ls ! i)) is) = map Inr des"
    by blast
  show ?case
  proof (cases "contains marker (ls ! i)")
    case False
    with des show ?thesis by auto
  next
    case True
    with s1 obtain de where "decode_entries (ls ! i) = Inr de"
      by (cases "decode_entries (ls ! i)") (auto simp: scan_step_def)
    with True des have "map (\<lambda>i. decode_entries (ls ! i))
        (filter (\<lambda>i. contains marker (ls ! i)) (i # is)) = map Inr (de # des)"
      by simp
    then show ?thesis by blast
  qed
qed

lemma filter_indices:
  "map ((!) ls) (filter (\<lambda>i. P (ls ! i)) [0..<length ls]) = filter P ls"
proof -
  have "filter P ls = filter P (map ((!) ls) [0..<length ls])"
    by (simp add: map_nth)
  also have "\<dots> = map ((!) ls) (filter (P \<circ> (!) ls) [0..<length ls])"
    by (simp only: filter_map)
  finally show ?thesis by (simp add: comp_def)
qed

lemma delete_rows_filter:
  "a \<le> m \<Longrightarrow> m \<le> length xs \<Longrightarrow>
   delete_rows (rev (filter (\<lambda>i. Q (xs ! i)) [a..<m])) xs =
     Inr (take a xs @ filter (\<lambda>l. \<not> Q l) (take (m - a) (drop a xs)) @ drop m xs)"
proof (induction m arbitrary: xs)
  case 0
  then show ?case by simp
next
  case (Suc m)
  show ?case
  proof (cases "a = Suc m")
    case True
    then show ?thesis by simp
  next
    case False
    with Suc.prems have am: "a \<le> m" and m: "m < length xs" by simp_all
    have seg: "take (Suc m - a) (drop a xs) = take (m - a) (drop a xs) @ [xs ! m]"
      using am m by (simp add: Suc_diff_le take_Suc_conv_app_nth)
    show ?thesis
    proof (cases "Q (xs ! m)")
      case False
      with Suc.IH [of xs] am m seg show ?thesis
        by (simp add: Cons_nth_drop_Suc)
    next
      case True
      let ?xs' = "take m xs @ drop (Suc m) xs"
      have same: "filter (\<lambda>i. Q (?xs' ! i)) [a..<m] = filter (\<lambda>i. Q (xs ! i)) [a..<m]"
        using m by (intro filter_cong) (auto simp: nth_append)
      have "delete_rows (rev (filter (\<lambda>i. Q (xs ! i)) [a..<Suc m])) xs =
          delete_rows (rev (filter (\<lambda>i. Q (xs ! i)) [a..<m])) ?xs'"
        using True am m by simp
      also have "\<dots> = Inr (take a ?xs' @ filter (\<lambda>l. \<not> Q l) (take (m - a) (drop a ?xs')) @ drop m ?xs')"
        using Suc.IH [of ?xs'] am m unfolding same by simp
      also have "take a ?xs' = take a xs" using am m by simp
      also have "take (m - a) (drop a ?xs') = take (m - a) (drop a xs)"
      proof -
        have "drop a ?xs' = drop a (take m xs) @ drop (Suc m) xs"
          using am m by simp
        moreover have "length (drop a (take m xs)) = m - a"
          using am m by simp
        ultimately have "take (m - a) (drop a ?xs') = drop a (take m xs)"
          by (metis append_eq_conv_conj)
        then show ?thesis by (simp only: drop_take)
      qed
      also have "drop m ?xs' = drop (Suc m) xs" using m by simp
      finally show ?thesis using True seg by simp
    qed
  qed
qed

lemma first_index:
  assumes "d < n" "P d" "\<And>i. i < d \<Longrightarrow> \<not> P i"
  shows "filter P [0..<n] = d # filter P [Suc d..<n]"
proof -
  have "[0..<d + (n - d)] = [0..<d] @ [d..<d + (n - d)]"
    by (rule upt_add_eq_append) simp
  moreover have "[d..<n] = d # [Suc d..<n]"
    using assms(1) by (rule upt_conv_Cons)
  ultimately have "[0..<n] = [0..<d] @ d # [Suc d..<n]"
    using assms(1) by simp
  moreover have "filter P [0..<d] = []"
    using assms(3) by (auto simp: filter_empty_conv)
  ultimately show ?thesis using assms(2) by simp
qed

lemma collapse_no_match:
  assumes "\<And>l. l \<in> set ls \<Longrightarrow> \<not> contains marker l"
  shows "collapse fr ls = Inr ls"
proof -
  have none: "filter (\<lambda>i. contains marker (ls ! i)) [0..<length ls] = []"
    using assms by (auto simp: filter_empty_conv)
  have "scan_loop ls [0..<length ls] \<lparr>packages = [], package_row = JNull, package_del = []\<rparr> =
      Inr \<lparr>packages = [], package_row = JNull, package_del = []\<rparr>"
    using scan_loop_eq [of ls "[0..<length ls]" "[]"] none by simp
  then show ?thesis by (simp add: collapse_def summarize_def)
qed

lemma entries_of_decoded: "decode_entries l = Inr de \<Longrightarrow> entries_of l = snd de"
  by (cases de) (simp add: entries_of_def)

lemma all_entries_decoded:
  assumes "map decode_entries (filter (contains marker) ls) = map Inr des"
  shows "all_entries ls = concat (map snd des)"
proof -
  have "map entries_of xs = map snd des" if "map decode_entries xs = map Inr des" for xs
    using that
  proof (induction xs arbitrary: des)
    case Nil
    then show ?case by simp
  next
    case (Cons x xs)
    then show ?case by (cases des) (auto simp: entries_of_decoded)
  qed
  with assms show ?thesis by (simp add: all_entries_def)
qed

lemma collapse_first_match:
  assumes d: "d < length ls" "contains marker (ls ! d)"
      "\<And>i. i < d \<Longrightarrow> \<not> contains marker (ls ! i)"
    and ok: "collapse fr ls = Inr out"
  shows "\<exists>xs. loads (ls ! d) = Inr (JList xs) \<and> 2 < length xs \<and>
     out = take d ls @
           [dumps fr (JList (xs[2 := JStr (join CRLF (ellipsize (all_entries ls)))])) @ [10]] @
           filter (\<lambda>l. \<not> contains marker l) (drop (Suc d) ls)"
proof -
  let ?M = "\<lambda>i. contains marker (ls ! i)"
  let ?init = "\<lparr>packages = [], package_row = JNull, package_del = []\<rparr>"
  from ok obtain st where st: "scan_loop ls [0..<length ls] ?init = Inr st"
    by (auto simp: collapse_def split: sum.splits)
  from scan_loop_decodes [OF st] obtain des where
    des: "map (\<lambda>i. decode_entries (ls ! i)) (filter ?M [0..<length ls]) = map Inr des"
    by blast
  have dels: "filter ?M [0..<length ls] = d # filter ?M [Suc d..<length ls]"
    using d by (intro first_index) auto
  from des dels obtain de des' where de: "des = de # des'" "decode_entries (ls ! d) = Inr de"
    by (cases des) auto
  obtain data es where [simp]: "de = (data, es)" by (cases de)
  have "map decode_entries (filter (contains marker) ls) =
      map decode_entries (map ((!) ls) (filter ?M [0..<length ls]))"
    by (simp only: filter_indices)
  also have "\<dots> = map (\<lambda>i. decode_entries (ls ! i)) (filter ?M [0..<length ls])"
    by (simp add: comp_def)
  finally have "map decode_entries (filter (contains marker) ls) = map Inr des"
    using des by simp
  then have pk: "all_entries ls = concat (map snd des)"
    by (rule all_entries_decoded)
  have st_eq: "st = \<lparr>packages = all_entries ls, package_row = data,
      package_del = d # filter ?M [Suc d..<length ls]\<rparr>"
    using scan_loop_eq [OF des, of ?init] st de pk dels by simp
  have tr: "truthy fr data"
    using de(2) decode_entries_truthy by simp
  let ?v = "JStr (join CRLF (ellipsize (all_entries ls)))"
  from ok st obtain lines' where sm: "summarize fr st ls = Inr lines'"
    and dl: "delete_rows (rev (drop 1 (package_del st))) lines' = Inr out"
    by (auto simp: collapse_def split: sum.splits)
  from sm tr obtain row where row: "setitem2 data ?v = Inr row"
    by (auto simp: summarize_def st_eq split: sum.splits)
  then obtain xs where xs: "data = JList xs" "2 < length xs" "row = JList (xs[2 := ?v])"
    by (cases data) (auto split: if_splits)
  let ?merged = "dumps fr (JList (xs[2 := ?v])) @ [10]"
  have lines': "lines' = ls[d := ?merged]"
    using sm tr row xs d(1) by (simp add: summarize_def st_eq)
  have same: "filter ?M [Suc d..<length ls] =
      filter (\<lambda>i. contains marker (lines' ! i)) [Suc d..<length lines']"
    unfolding lines' by (rule filter_cong) auto
  have "delete_rows (rev (drop 1 (package_del st))) lines' =
      Inr (take (Suc d) lines' @
           filter (\<lambda>l. \<not> contains marker l) (take (length lines' - Suc d) (drop (Suc d) lines')) @
           drop (length lines') lines')"
    unfolding st_eq using delete_rows_filter [of "Suc d" "length lines'" lines' "contains marker"] d(1)
    by (simp add: same lines')
  also have "take (Suc d) lines' = take d ls @ [?merged]"
    using d(1) by (simp add: lines' take_Suc_conv_app_nth)
  also have "drop (Suc d) lines' = drop (Suc d) ls"
    by (simp add: lines')
  finally have "out = take d ls @ [?merged] @ filter (\<lambda>l. \<not> contains marker l) (drop (Suc d) ls)"
    using dl by (simp add: lines')
  moreover have "loads (ls ! d) = Inr (JList xs)"
    using de(2) xs(1) by (auto simp: decode_entries_def split: sum.splits)
  ultimately show ?thesis using xs(2) by blast
qed

lemmas eval_passes = recolor_pass_def annotate_pass_def annotate_step_def recolor_step_def
  prompt_end_def bare_newline_def hash_mark_def prompt_def crlf_esc_def reset_def dim_def
  blue_def marker_def

lemmas eval_json = loads_def skip_ws_def is_ws_def scan_escape_def BACKSLASH_def
  decode_uXXXX_def hexval_def append_char_def

lemma ex_recolored:
  \<open>recolor_pass (annotate_pass ex_packages) =
     [str ''{"version": 2}'' @ [10],
      str ''["o","","go: added github.com/a v1'' @ crlf_esc @ reset @ str ''go: added github.com/b v1'' @ crlf_esc @ reset @ str ''"]'' @ [10],
      str ''["o","","plain"]'' @ [10],
      str ''["o","","go: added github.com/c v1'' @ crlf_esc @ reset @ str ''go: added github.com/d v1'' @ crlf_esc @ reset @ str ''"]'' @ [10],
      str ''["o","","exit'' @ crlf_esc @ reset @ str ''"]'' @ [10],
      str ''["o","","logout"]'' @ [10]]\<close>
  by (simp add: ex_packages_def eval_passes)


lemma scan_loop_append:
  "scan_loop ls (xs @ ys) st =
     (case scan_loop ls xs st of Inl e \<Rightarrow> Inl e | Inr st' \<Rightarrow> scan_loop ls ys st')"
  by (induction xs arbitrary: st) (auto split: sum.splits)

lemma scan_loop_first_error:
  assumes "i < n" "contains marker (ls ! i)" "decode_entries (ls ! i) = Inl e"
    and "\<And>j. j < i \<Longrightarrow> \<not> contains marker (ls ! j)"
  shows "scan_loop ls [0..<n] st = Inl e"
proof -
  have "[0..<i + (n - i)] = [0..<i] @ [i..<i + (n - i)]"
    by (rule upt_add_eq_append) simp
  moreover have "[i..<n] = i # [Suc i..<n]"
    using assms(1) by (rule upt_conv_Cons)
  ultimately have split: "[0..<n] = [0..<i] @ i # [Suc i..<n]"
    using assms(1) by simp
  have "filter (\<lambda>j. contains marker (ls ! j)) [0..<i] = []"
    using assms(4) by (auto simp: filter_empty_conv)
  then have "scan_loop ls [0..<i] st = Inr st"
    using scan_loop_eq [of ls "[0..<i]" "[]" st] by simp
  then show ?thesis
    unfolding split scan_loop_append using assms(2,3) by (simp add: scan_step_error)
qed

lemma decode_entries_fails:
  assumes "loads l = Inl e \<or> (\<exists>xs. loads l = Inr (JList xs) \<and> length xs < 3)"
  shows "decode_entries l = Inl (case loads l of Inl e \<Rightarrow> e | Inr v \<Rightarrow> IndexError)"
  using assms by (auto simp: decode_entries_def)

lemma ex_one_prompt_collapse:
  \<open>collapse id (recolor_pass (annotate_pass ex_one_prompt)) =
     Inr [str ''["o","","'' @ blue @ str ''"]'' @ [10]]\<close>
  by (simp add: ex_one_prompt_def eval_passes collapse_def summarize_def scan_step_def)

lemma ex_bad_json_recolored: "recolor_pass (annotate_pass ex_bad_json) = ex_bad_json"
  by (simp add: ex_bad_json_def eval_passes)

lemma ex_short_array_recolored: "recolor_pass (annotate_pass ex_short_array) = ex_short_array"
  by (simp add: ex_short_array_def eval_passes)

lemma ex_one_package_recolored: "recolor_pass (annotate_pass ex_one_package) = ex_one_package"
  by (simp add: ex_one_package_def eval_passes)

lemma ex_one_package_collapse:
  \<open>collapse id ex_one_package =
     Inr [str ''["o", "", "go: added github.com/a'' @ crlf_esc @ str ''...'' @ crlf_esc @
          str ''go: added github.com/a"]'' @ [10]]\<close>
  by (simp add: ex_one_package_def collapse_def summarize_def scan_step_def decode_entries_def
      eval_json marker_def CRLF_def ellipsize_def dots_def encode_basestring_ascii_def
      escape_ascii_def crlf_esc_def)

lemma unchanged_line:
  assumes "i < length lines" "\<not> contains prompt_end (lines ! i)"
    "\<not> contains crlf_esc (lines ! i)" "\<not> contains prompt (annotate_pass lines ! i)"
  shows "recolor_pass (annotate_pass lines) ! i = lines ! i"
proof -
  have "rewrite_line (lines ! i) (successor lines i) = lines ! i"
    using assms(2) by (simp add: rewrite_line_def split: option.splits)
  moreover have "annotate (lines ! i) = lines ! i"
    unfolding annotate_def using assms(3) by (rule replace_absent)
  ultimately have mid: "annotate_pass lines ! i = lines ! i"
    using assms(1) by (simp add: annotate_pass_nth)
  then have "replace prompt blue (lines ! i) = lines ! i"
    using assms(4) by (simp add: replace_absent)
  then show ?thesis using assms(1) mid by (simp add: recolor_pass_map)
qed

lemma filter_nth_position:
  assumes "n < length xs" "P (xs ! n)"
  shows "length (filter P (take n xs)) < length (filter P xs) \<and>
         filter P xs ! length (filter P (take n xs)) = xs ! n"
proof -
  have "xs = take n xs @ xs ! n # drop (Suc n) xs"
    using assms(1) by (rule id_take_nth_drop)
  then have "filter P xs = filter P (take n xs) @ xs ! n # filter P (drop (Suc n) xs)"
    using assms(2) by (metis filter.simps(2) filter_append)
  then show ?thesis by (simp add: nth_append)
qed

lemma first_match_exists:
  assumes "\<exists>l \<in> set ls. P l"
  shows "\<exists>d. d < length ls \<and> P (ls ! d) \<and> (\<forall>i < d. \<not> P (ls ! i))"
proof -
  let ?d = "length (takeWhile (\<lambda>l. \<not> P l) ls)"
  have "dropWhile (\<lambda>l. \<not> P l) ls \<noteq> []"
    using assms by (simp add: dropWhile_eq_Nil_conv)
  moreover have "?d + length (dropWhile (\<lambda>l. \<not> P l) ls) = length ls"
    by (metis length_append takeWhile_dropWhile_id)
  ultimately have lt: "?d < length ls"
    by (cases "dropWhile (\<lambda>l. \<not> P l) ls") auto
  moreover have "P (ls ! ?d)"
    using lt nth_length_takeWhile [of "\<lambda>l. \<not> P l" ls] by blast
  moreover have "\<not> P (ls ! i)" if "i < ?d" for i
  proof -
    have "takeWhile (\<lambda>l. \<not> P l) ls ! i \<in> set (takeWhile (\<lambda>l. \<not> P l) ls)"
      using that by simp
    then have "\<not> P (takeWhile (\<lambda>l. \<not> P l) ls ! i)"
      using set_takeWhileD [of "takeWhile (\<lambda>l. \<not> P l) ls ! i" "\<lambda>l. \<not> P l" ls] by simp
    then show ?thesis using that by (simp add: takeWhile_nth)
  qed
  ultimately show ?thesis by blast
qed

lemma collapse_keeps_line:
  assumes ok: "collapse fr ls = Inr out"
    and i: "i < length ls" "\<not> contains marker (ls ! i)"
  shows "i - (length (filter (contains marker) (take i ls)) - 1) < length out \<and>
         out ! (i - (length (filter (contains marker) (take i ls)) - 1)) = ls ! i"
proof (cases "\<exists>l \<in> set ls. contains marker l")
  case False
  then have "collapse fr ls = Inr ls" by (intro collapse_no_match) blast
  with ok have out: "out = ls" by simp
  have "filter (contains marker) (take i ls) = []"
    using False by (auto simp: filter_empty_conv dest: in_set_takeD)
  then show ?thesis using i out by simp
next
  case True
  let ?P = "contains marker"
  let ?Q = "\<lambda>l. \<not> contains marker l"
  from first_match_exists [OF True] obtain d where
    d: "d < length ls" "?P (ls ! d)" "\<forall>j < d. ?Q (ls ! j)" by blast
  from collapse_first_match [OF d(1,2) _ ok] d(3) obtain m where
    out: "out = take d ls @ [m] @ filter ?Q (drop (Suc d) ls)" by blast
  have none: "filter ?P (take d ls) = []"
    using d(1,3) by (auto simp: filter_empty_conv in_set_conv_nth)
  have "i \<noteq> d" using d(2) i(2) by blast
  then consider "i < d" | "d < i" by linarith
  then show ?thesis
  proof cases
    case 1
    have "set (take i ls) \<subseteq> set (take d ls)"
      using 1 by (simp add: set_take_subset_set_take)
    with none have "filter ?P (take i ls) = []"
      by (auto simp: filter_empty_conv)
    then show ?thesis using 1 d(1) out by (simp add: nth_append)
  next
    case 2
    define xs where "xs = drop (Suc d) ls"
    define j where "j = i - Suc d"
    define c where "c = length (filter ?Q (take j xs))"
    have ij: "i = Suc d + j" using 2 by (simp add: j_def)
    have j: "j < length xs" using i(1) 2 by (simp add: xs_def j_def)
    have at: "xs ! j = ls ! i" using i(1) 2 by (simp add: xs_def j_def)
    from filter_nth_position [of j xs ?Q] j at i(2)
    have pos: "c < length (filter ?Q xs)" "filter ?Q xs ! c = ls ! i"
      by (simp_all add: c_def)
    have "take (Suc d + j) ls = take (Suc d) ls @ take j (drop (Suc d) ls)"
      by (rule take_add)
    moreover have "take (Suc d) ls = take d ls @ [ls ! d]"
      using d(1) by (rule take_Suc_conv_app_nth)
    ultimately have "take i ls = take d ls @ [ls ! d] @ take j xs"
      unfolding ij xs_def by simp
    then have k: "length (filter ?P (take i ls)) = Suc (length (filter ?P (take j xs)))"
      using none d(2) by simp
    have "length (filter ?P (take j xs)) + c = length (take j xs)"
      unfolding c_def using sum_length_filter_compl [of ?P "take j xs"] by (simp add: comp_def)
    then have "length (filter ?P (take j xs)) + c = j" using j by simp
    then have idx: "i - (length (filter ?P (take i ls)) - 1) = Suc d + c"
      using k ij by simp
    have "out ! (Suc d + c) = filter ?Q xs ! c"
      using d(1) unfolding out xs_def by (simp add: nth_append)
    moreover have "Suc d + c < length out"
      using d(1) pos(1) unfolding out xs_def by simp
    ultimately show ?thesis using pos(2) idx by simp
  qed
qed

lemma ex_packages_collapse:
  "collapse id (recolor_pass (annotate_pass ex_packages)) = Inr ex_packages_out"
  unfolding ex_recolored
  by (simp add: ex_packages_out_def collapse_def summarize_def scan_step_def decode_entries_def
      eval_json marker_def CRLF_def ellipsize_def dots_def encode_basestring_ascii_def
      escape_ascii_def hex4_def hex_digit_def crlf_esc_def reset_def)


















lemma prepend_str_Nil [simp]: "prepend_str [] r = r"
  by (auto simp: prepend_str_def split: sum.splits)


lemma prepend_prepend: "prepend_str a (prepend_str d r) = prepend_str (a @ d) r"
  by (auto simp: prepend_str_def split: sum.splits)














section \<open>The prompt recolorer and the newline annotator\<close>

text \<open>
  Claim C5. A line \<open>i\<close> that contains \<^verbatim>\<open>$ "]\<close> and has a successor loses every \<^verbatim>\<open>$ \<close> when
  the successor contains \<^verbatim>\<open>"\r\n"]\<close>, and then has every \<^verbatim>\<open>$ \<close> (of what the first
  rewrite left) replaced by the dim escape when the successor contains \<^verbatim>\<open>"#"\<close>; the two
  tests are made one after the other on the successor as it was read from the file. A
  line without a successor is not rewritten. (The loop then annotates the line breaks of
  the result, which is the outer \<open>replace\<close>.)
\<close>

theorem prompt_rewrite_by_successor:
  assumes "i < length ls" and "contains prompt_end (ls ! i)"
  shows "annotate_pass ls ! i =
     replace crlf_esc (crlf_esc @ reset)
       (if i + 1 < length ls then
          (let a = (if contains bare_newline (ls ! (i + 1))
                    then replace prompt [] (ls ! i) else ls ! i)
           in if contains hash_mark (ls ! (i + 1)) then replace prompt dim a else a)
        else ls ! i)"
  using assms
  by (simp add: annotate_pass_nth annotate_def rewrite_line_def successor_def)

text \<open>
  The theorem at lines 0, 2 and 4 of \<open>ex_prompt_lines\<close>: a prompt before a bare newline is
  deleted, a prompt before \<^verbatim>\<open>"#"\<close> becomes the dim escape, the prompt of the last line stays.
\<close>

theorem prompt_rewrite_by_successor_witness:
  \<open>0 < length ex_prompt_lines \<and> contains prompt_end (ex_prompt_lines ! 0) \<and>
   annotate_pass ex_prompt_lines ! 0 = str ''["o","",""]'' @ [10] \<and>
   annotate_pass ex_prompt_lines ! 2 = str ''["o","","'' @ dim @ str ''"]'' @ [10] \<and>
   annotate_pass ex_prompt_lines ! 4 = str ''["o","","$ "]'' @ [10]\<close>
proof -
  have len: "0 < length ex_prompt_lines" "2 < length ex_prompt_lines"
    "4 < length ex_prompt_lines"
    by (simp_all add: ex_prompt_lines_def)
  have pe: "contains prompt_end (ex_prompt_lines ! 0)"
    "contains prompt_end (ex_prompt_lines ! 2)" "contains prompt_end (ex_prompt_lines ! 4)"
    by (simp_all add: ex_prompt_lines_def prompt_end_def)
  show ?thesis
    unfolding prompt_rewrite_by_successor [OF len(1) pe(1)]
      prompt_rewrite_by_successor [OF len(2) pe(2)]
      prompt_rewrite_by_successor [OF len(3) pe(3)]
    by (simp add: ex_prompt_lines_def prompt_end_def bare_newline_def hash_mark_def prompt_def
        crlf_esc_def reset_def dim_def)
qed

text \<open>
  Claim C7. Wherever the escaped line break \<^verbatim>\<open>\r\n\<close> stands in the text of a line, the line
  the first loop leaves behind has that line break with the reset sequence right behind
  it; the text before and the text behind are rewritten as the line is (the rewrite of
  the prompt markers that applies to this line, then the annotation), whether or not the
  line matched the prompt tests.
\<close>

theorem newline_reset_appended:
  assumes "i < length ls" and "ls ! i = u @ crlf_esc @ v"
  shows "annotate_pass ls ! i =
     (let f = (\<lambda>x. if contains prompt_end (ls ! i) \<and> i + 1 < length ls then
                      (let a = (if contains bare_newline (ls ! (i + 1))
                                then replace prompt [] x else x)
                       in if contains hash_mark (ls ! (i + 1)) then replace prompt dim a else a)
                    else x)
      in replace crlf_esc (crlf_esc @ reset) (f u) @ crlf_esc @ reset @
         replace crlf_esc (crlf_esc @ reset) (f v))"
proof -
  let ?A = "replace crlf_esc (crlf_esc @ reset)"
  have A: "?A (x @ crlf_esc @ y) = ?A x @ crlf_esc @ reset @ ?A y" for x y
    using annotate_occurrence [of x y] by (simp add: annotate_def)
  have "annotate_pass ls ! i = ?A (rewrite_line (ls ! i) (successor ls i))"
    using assms(1) by (simp add: annotate_pass_nth annotate_def)
  then show ?thesis
    unfolding assms(2)
    by (auto simp: rewrite_line_def successor_def Let_def replace_prompt_around_crlf A)
qed

text \<open>The theorem at line 1 of \<open>ex_prompt_lines\<close>, the bare newline.\<close>

theorem newline_reset_appended_witness:
  \<open>1 < length ex_prompt_lines \<and>
   ex_prompt_lines ! 1 = str ''["o","","'' @ crlf_esc @ str ''"]'' @ [10] \<and>
   annotate_pass ex_prompt_lines ! 1 = str ''["o","","'' @ crlf_esc @ reset @ str ''"]'' @ [10]\<close>
proof -
  have len: "1 < length ex_prompt_lines"
    by (simp add: ex_prompt_lines_def)
  have line: \<open>ex_prompt_lines ! 1 = str ''["o","","'' @ crlf_esc @ (str ''"]'' @ [10])\<close>
    by (simp add: ex_prompt_lines_def)
  show ?thesis
    unfolding newline_reset_appended [OF len line]
    by (simp add: ex_prompt_lines_def prompt_end_def bare_newline_def hash_mark_def prompt_def
        crlf_esc_def reset_def dim_def)
qed

text \<open>
  Claim C6, as amended. The second loop runs on the list the first loop has finished. It
  replaces every \<^verbatim>\<open>$ \<close> that a line then holds by the blue prompt, wherever it stands, and
  no \<^verbatim>\<open>$ \<close> is left afterwards. A line in which the first loop replaced \<^verbatim>\<open>$ \<close> by the dim
  escape holds no \<^verbatim>\<open>$ \<close> any more and is left as it is. A line from which the first loop
  deleted \<^verbatim>\<open>$ \<close> is left as it is provided the deletion left no \<^verbatim>\<open>$ \<close> behind. A line the
  first loop did not rewrite has its \<^verbatim>\<open>$ \<close> recolored.
\<close>

theorem blanket_recolor:
  assumes "i < length ls"
  shows "recolor_pass (annotate_pass ls) ! i = replace prompt blue (annotate_pass ls ! i) \<and>
    \<not> contains prompt (recolor_pass (annotate_pass ls) ! i) \<and>
    (\<forall>u v. annotate_pass ls ! i = u @ prompt @ v \<longrightarrow>
       recolor_pass (annotate_pass ls) ! i =
         replace prompt blue u @ blue @ replace prompt blue v) \<and>
    (contains prompt_end (ls ! i) \<and> i + 1 < length ls \<and> contains hash_mark (ls ! (i + 1)) \<longrightarrow>
       \<not> contains prompt (annotate_pass ls ! i) \<and>
       recolor_pass (annotate_pass ls) ! i = annotate_pass ls ! i) \<and>
    (contains prompt_end (ls ! i) \<and> i + 1 < length ls \<and> contains bare_newline (ls ! (i + 1)) \<and>
     \<not> contains prompt (replace prompt [] (ls ! i)) \<longrightarrow>
       recolor_pass (annotate_pass ls) ! i = annotate_pass ls ! i) \<and>
    (\<not> (contains prompt_end (ls ! i) \<and> i + 1 < length ls \<and>
        (contains bare_newline (ls ! (i + 1)) \<or> contains hash_mark (ls ! (i + 1)))) \<longrightarrow>
       recolor_pass (annotate_pass ls) ! i =
         replace prompt blue (replace crlf_esc (crlf_esc @ reset) (ls ! i)))"
proof -
  let ?out = "recolor_pass (annotate_pass ls) ! i"
  let ?mid = "annotate_pass ls ! i"
  have step3: "?out = replace prompt blue ?mid"
    using assms by (simp add: recolor_pass_map)
  have gone: "\<not> contains prompt ?out"
    unfolding step3 by (rule no_prompt_after_blue)
  have each: "\<forall>u v. ?mid = u @ prompt @ v \<longrightarrow>
      ?out = replace prompt blue u @ blue @ replace prompt blue v"
    unfolding step3
    using replace_occurrence [OF border_free_prompt, of blue] by (auto simp: prompt_def)
  have mid: "?mid = annotate (rewrite_line (ls ! i) (successor ls i))"
    using assms by (simp add: annotate_pass_nth)
  have dimmed: "\<not> contains prompt ?mid \<and> ?out = ?mid"
    if "contains prompt_end (ls ! i)" "i + 1 < length ls" "contains hash_mark (ls ! (i + 1))"
  proof -
    have "\<not> contains prompt (rewrite_line (ls ! i) (successor ls i))"
      using that by (simp add: rewrite_line_def successor_def Let_def no_prompt_after_dim)
    then have "\<not> contains prompt ?mid"
      unfolding mid by (rule no_prompt_after_annotate)
    then show ?thesis unfolding step3 by (simp add: replace_absent)
  qed
  have deleted: "?out = ?mid"
    if "contains prompt_end (ls ! i)" "i + 1 < length ls" "contains bare_newline (ls ! (i + 1))"
      "\<not> contains prompt (replace prompt [] (ls ! i))"
  proof -
    have "\<not> contains prompt (rewrite_line (ls ! i) (successor ls i))"
      using that by (simp add: rewrite_line_def successor_def Let_def no_prompt_after_dim)
    then have "\<not> contains prompt ?mid"
      unfolding mid by (rule no_prompt_after_annotate)
    then show ?thesis unfolding step3 by (simp add: replace_absent)
  qed
  have untouched: "?out = replace prompt blue (replace crlf_esc (crlf_esc @ reset) (ls ! i))"
    if "\<not> (contains prompt_end (ls ! i) \<and> i + 1 < length ls \<and>
        (contains bare_newline (ls ! (i + 1)) \<or> contains hash_mark (ls ! (i + 1))))"
  proof -
    have "rewrite_line (ls ! i) (successor ls i) = ls ! i"
      using that by (auto simp: rewrite_line_def successor_def Let_def)
    then show ?thesis unfolding step3 mid by (simp add: annotate_def)
  qed
  from step3 gone each dimmed deleted untouched show ?thesis by blast
qed

text \<open>
  The theorem at line 2 of \<open>ex_prompt_lines\<close>, which the first loop dimmed, and at line 4,
  which it did not rewrite.
\<close>

theorem blanket_recolor_witness:
  \<open>2 < length ex_prompt_lines \<and> 4 < length ex_prompt_lines \<and>
   contains prompt_end (ex_prompt_lines ! 2) \<and> contains hash_mark (ex_prompt_lines ! (2 + 1)) \<and>
   recolor_pass (annotate_pass ex_prompt_lines) ! 2 = annotate_pass ex_prompt_lines ! 2 \<and>
   recolor_pass (annotate_pass ex_prompt_lines) ! 4 =
     replace prompt blue (replace crlf_esc (crlf_esc @ reset) (ex_prompt_lines ! 4)) \<and>
   replace prompt blue (replace crlf_esc (crlf_esc @ reset) (ex_prompt_lines ! 4)) =
     str ''["o","","'' @ blue @ str ''"]'' @ [10] \<and>
   \<not> contains prompt (recolor_pass (annotate_pass ex_prompt_lines) ! 4)\<close>
proof -
  have len: "2 < length ex_prompt_lines" "4 < length ex_prompt_lines" "2 + 1 < length ex_prompt_lines"
    by (simp_all add: ex_prompt_lines_def)
  have two: "contains prompt_end (ex_prompt_lines ! 2)"
    "contains hash_mark (ex_prompt_lines ! (2 + 1))"
    by (simp_all add: ex_prompt_lines_def prompt_end_def hash_mark_def)
  have four: "\<not> (contains prompt_end (ex_prompt_lines ! 4) \<and> 4 + 1 < length ex_prompt_lines \<and>
      (contains bare_newline (ex_prompt_lines ! (4 + 1)) \<or>
       contains hash_mark (ex_prompt_lines ! (4 + 1))))"
    by (simp add: ex_prompt_lines_def)
  have val: \<open>replace prompt blue (replace crlf_esc (crlf_esc @ reset) (ex_prompt_lines ! 4)) =
     str ''["o","","'' @ blue @ str ''"]'' @ [10]\<close>
    by (simp add: ex_prompt_lines_def prompt_def crlf_esc_def reset_def blue_def)
  from blanket_recolor [OF len(1)] blanket_recolor [OF len(2)] len two four val
  show ?thesis by blast
qed

text \<open>
  Claim C6 as it was stated fails on \<open>ex_joined_prompt\<close>: deleting the two \<^verbatim>\<open>$ \<close> of
  \<^verbatim>\<open>$$  $ \<close> joins the first dollar sign with the second space, so the line the first loop
  rewrote holds a \<^verbatim>\<open>$ \<close> again, and the second loop changes it.
\<close>

theorem deleted_prompt_rejoined:
  \<open>contains prompt_end (ex_joined_prompt ! 0) \<and>
   contains bare_newline (ex_joined_prompt ! 1) \<and>
   annotate_pass ex_joined_prompt ! 0 = str ''["o","","$ "]'' @ [10] \<and>
   contains prompt (annotate_pass ex_joined_prompt ! 0) \<and>
   recolor_pass (annotate_pass ex_joined_prompt) ! 0 = str ''["o","","'' @ blue @ str ''"]'' @ [10] \<and>
   recolor_pass (annotate_pass ex_joined_prompt) ! 0 \<noteq> annotate_pass ex_joined_prompt ! 0\<close>
  by (simp add: ex_joined_prompt_def recolor_pass_def annotate_pass_def annotate_step_def
      recolor_step_def prompt_end_def bare_newline_def hash_mark_def prompt_def
      crlf_esc_def reset_def dim_def blue_def)

text \<open>
  Claim C4, as amended. On a recording in which no line contains the escaped line break
  \<^verbatim>\<open>\r\n\<close>, running the two loops a second time changes nothing.
\<close>

theorem recolor_idempotent_without_newlines:
  assumes "\<And>l. l \<in> set ls \<Longrightarrow> \<not> contains crlf_esc l"
  shows "recolor_pass (annotate_pass (recolor_pass (annotate_pass ls))) =
         recolor_pass (annotate_pass ls)"
proof (rule pass_fixed)
  fix l assume "l \<in> set (recolor_pass (annotate_pass ls))"
  then obtain i where i: "i < length ls" and l: "l = recolor_pass (annotate_pass ls) ! i"
    by (auto simp: in_set_conv_nth recolor_pass_map)
  have l': "l = replace prompt blue (annotate (rewrite_line (ls ! i) (successor ls i)))"
    using i l by (simp add: pass_nth)
  show "\<not> contains prompt l"
    unfolding l' by (rule no_prompt_after_blue)
  have "\<not> contains crlf_esc (rewrite_line (ls ! i) (successor ls i))"
    using assms i by (intro rewrite_line_no_crlf) (auto dest: successor_in_set)
  moreover from this have "annotate (rewrite_line (ls ! i) (successor ls i)) =
      rewrite_line (ls ! i) (successor ls i)"
    unfolding annotate_def by (rule replace_absent)
  ultimately show "\<not> contains crlf_esc l"
    unfolding l' by (simp add: no_crlf_after_blue)
qed

text \<open>The theorem on \<open>ex_no_newline\<close>, whose two lines hold no line break.\<close>

theorem recolor_idempotent_witness:
  \<open>length ex_no_newline = 2 \<and>
   \<not> contains crlf_esc (ex_no_newline ! 0) \<and> \<not> contains crlf_esc (ex_no_newline ! 1) \<and>
   recolor_pass (annotate_pass ex_no_newline) \<noteq> ex_no_newline \<and>
   recolor_pass (annotate_pass (recolor_pass (annotate_pass ex_no_newline))) =
     recolor_pass (annotate_pass ex_no_newline)\<close>
proof -
  have a: "\<not> contains crlf_esc l" if "l \<in> set ex_no_newline" for l
    using that by (auto simp: ex_no_newline_def crlf_esc_def)
  have b: "length ex_no_newline = 2 \<and>
     \<not> contains crlf_esc (ex_no_newline ! 0) \<and> \<not> contains crlf_esc (ex_no_newline ! 1)"
    by (simp add: ex_no_newline_def crlf_esc_def)
  have c: "recolor_pass (annotate_pass ex_no_newline) \<noteq> ex_no_newline"
    by (simp add: ex_no_newline_def recolor_pass_def annotate_pass_def annotate_step_def
        recolor_step_def prompt_end_def bare_newline_def hash_mark_def prompt_def
        crlf_esc_def reset_def dim_def blue_def)
  from recolor_idempotent_without_newlines [of ex_no_newline, OF a] b c
  show ?thesis by simp
qed

text \<open>
  Claim C4 as it was stated fails on the one-line recording \<^verbatim>\<open>\r\n\<close>. None of the three
  inserted sequences contains \<^verbatim>\<open>$ \<close> or \<^verbatim>\<open>\r\n\<close>, but the annotation keeps the line break it
  matched, so the second run matches it again and appends a second reset.
\<close>

theorem recolor_twice_differs:
  "\<not> contains prompt reset \<and> \<not> contains crlf_esc reset \<and>
   \<not> contains prompt dim \<and> \<not> contains crlf_esc dim \<and>
   \<not> contains prompt blue \<and> \<not> contains crlf_esc blue \<and>
   recolor_pass (annotate_pass [crlf_esc]) = [crlf_esc @ reset] \<and>
   recolor_pass (annotate_pass (recolor_pass (annotate_pass [crlf_esc]))) =
     [crlf_esc @ reset @ reset] \<and>
   recolor_pass (annotate_pass (recolor_pass (annotate_pass [crlf_esc]))) \<noteq>
     recolor_pass (annotate_pass [crlf_esc])"
  by (simp add: recolor_pass_def annotate_pass_def annotate_step_def recolor_step_def
      prompt_def prompt_end_def crlf_esc_def reset_def dim_def blue_def)

section \<open>The package-list collapser and the run as a whole\<close>

text \<open>
  Claim C8. Let a line of the recording, as the collapser reads it (behind the two
  recoloring loops), contain the marker \<^verbatim>\<open>go: added github.com/\<close>. If the line is not valid
  JSON, or decodes to an array of fewer than three elements, the collapser ends in an
  exception, and so does the run: nothing is printed. When no earlier line contains the
  marker, the exception is the decoder's own, or \<^verbatim>\<open>IndexError\<close> for the short array.
\<close>

theorem undecodable_package_line_aborts:
  assumes "ls = recolor_pass (annotate_pass lines)"
    and "i < length ls" and "contains marker (ls ! i)"
    and "loads (ls ! i) = Inl e \<or> (\<exists>xs. loads (ls ! i) = Inr (JList xs) \<and> length xs < 3)"
  shows "\<exists>e'. collapse fr ls = Inl e' \<and> main fr lines = Inl e' \<and>
     ((\<forall>j < i. \<not> contains marker (ls ! j)) \<longrightarrow>
        e' = (case loads (ls ! i) of Inl e \<Rightarrow> e | Inr v \<Rightarrow> IndexError))"
proof -
  let ?init = "\<lparr>packages = [], package_row = JNull, package_del = []\<rparr>"
  let ?err = "case loads (ls ! i) of Inl e \<Rightarrow> e | Inr v \<Rightarrow> IndexError"
  have dec: "decode_entries (ls ! i) = Inl ?err"
    using assms(4) by (rule decode_entries_fails)
  have "i \<in> set [0..<length ls]" using assms(2) by simp
  from scan_loop_error [OF this assms(3) dec] obtain e' where
    e': "scan_loop ls [0..<length ls] ?init = Inl e'" by blast
  have first: "e' = ?err" if "\<forall>j < i. \<not> contains marker (ls ! j)"
    using scan_loop_first_error [OF assms(2,3) dec, of ?init] that e' by simp
  have "collapse fr ls = Inl e'"
    using e' by (simp add: collapse_def)
  moreover from this have "main fr lines = Inl e'"
    by (simp add: main_def assms(1) [symmetric])
  ultimately show ?thesis using first by blast
qed

text \<open>
  The theorem on \<open>ex_bad_json\<close>, whose second line is cut off inside a string, and on
  \<open>ex_short_array\<close>, whose first line is an array of two elements.
\<close>

theorem undecodable_package_line_witness:
  \<open>contains marker (ex_bad_json ! 1) \<and> loads (ex_bad_json ! 1) = Inl JSONDecodeError \<and>
   main id ex_bad_json = Inl JSONDecodeError \<and>
   contains marker (ex_short_array ! 0) \<and>
   loads (ex_short_array ! 0) = Inr (JList [JStr (str ''o''), JStr (str ''go: added github.com/a'')]) \<and>
   main id ex_short_array = Inl IndexError\<close>
proof -
  have a: "1 < length ex_bad_json" "contains marker (ex_bad_json ! 1)"
    "loads (ex_bad_json ! 1) = Inl JSONDecodeError"
    "\<forall>j<1. \<not> contains marker (ex_bad_json ! j)"
    by (simp_all add: ex_bad_json_def marker_def eval_json)
  have b: "0 < length ex_short_array" "contains marker (ex_short_array ! 0)"
    \<open>loads (ex_short_array ! 0) = Inr (JList [JStr (str ''o''), JStr (str ''go: added github.com/a'')])\<close>
    by (simp_all add: ex_short_array_def marker_def eval_json)
  have a': "loads (ex_bad_json ! 1) = Inl JSONDecodeError \<or>
      (\<exists>xs. loads (ex_bad_json ! 1) = Inr (JList xs) \<and> length xs < 3)"
    using a(3) by simp
  have b': "loads (ex_short_array ! 0) = Inl JSONDecodeError \<or>
      (\<exists>xs. loads (ex_short_array ! 0) = Inr (JList xs) \<and> length xs < 3)"
    using b(3) by simp
  from undecodable_package_line_aborts [OF ex_bad_json_recolored [symmetric] a(1,2) a', of id] a(3,4)
  have "main id ex_bad_json = Inl JSONDecodeError" by auto
  moreover
  from undecodable_package_line_aborts [OF ex_short_array_recolored [symmetric] b(1,2) b', of id] b(3)
  have "main id ex_short_array = Inl IndexError" by auto
  ultimately show ?thesis using a b by simp
qed

text \<open>
  Claim C3, as amended. Let the collapser finish on a recording whose first line with the
  marker is line \<open>d\<close>. Then that line decodes to an array, and the sequence the collapser
  leaves behind is: the lines before \<open>d\<close>, unchanged; at index \<open>d\<close> the one merged record,
  which is the array of line \<open>d\<close> with the joined and truncated entries as its third
  element, written as JSON with a line feed; then the later lines that do not contain the
  marker, in their order, every later line with the marker being deleted. What is printed
  is this sequence without its last two lines, so the merged record is printed only when
  it is not one of those two.
\<close>

theorem merged_record_placement:
  assumes "ls = recolor_pass (annotate_pass lines)"
    and "d < length ls" and "contains marker (ls ! d)"
    and "\<And>i. i < d \<Longrightarrow> \<not> contains marker (ls ! i)"
    and "collapse fr ls = Inr out"
  shows "\<exists>xs. loads (ls ! d) = Inr (JList xs) \<and>
     out = take d ls @
           [dumps fr (JList (xs[2 := JStr (join CRLF (ellipsize (all_entries ls)))])) @ [10]] @
           filter (\<lambda>l. \<not> contains marker l) (drop (Suc d) ls) \<and>
     main fr lines = Inr (concat (take (length out - 2) out) @ [10])"
proof -
  from collapse_first_match [OF assms(2,3,4,5)] obtain xs where
    "loads (ls ! d) = Inr (JList xs)"
    "out = take d ls @
           [dumps fr (JList (xs[2 := JStr (join CRLF (ellipsize (all_entries ls)))])) @ [10]] @
           filter (\<lambda>l. \<not> contains marker l) (drop (Suc d) ls)"
    by blast
  moreover have "main fr lines = Inr (concat (take (length out - 2) out) @ [10])"
    using assms(1,5) by (simp add: main_def)
  ultimately show ?thesis by blast
qed

text \<open>
  The theorem on \<open>ex_packages\<close>: lines 1 and 3 hold three entries each, line 1 becomes the
  merged record and line 3 is deleted.
\<close>

theorem merged_record_placement_witness:
  \<open>1 < length (recolor_pass (annotate_pass ex_packages)) \<and>
   contains marker (recolor_pass (annotate_pass ex_packages) ! 1) \<and>
   \<not> contains marker (recolor_pass (annotate_pass ex_packages) ! 0) \<and>
   collapse id (recolor_pass (annotate_pass ex_packages)) = Inr ex_packages_out \<and>
   main id ex_packages = Inr (concat (take 3 ex_packages_out) @ [10])\<close>
proof -
  have a: "1 < length (recolor_pass (annotate_pass ex_packages))"
    "contains marker (recolor_pass (annotate_pass ex_packages) ! 1)"
    "\<not> contains marker (recolor_pass (annotate_pass ex_packages) ! 0)"
    unfolding ex_recolored by (simp_all add: marker_def crlf_esc_def reset_def)
  have b: "\<not> contains marker (recolor_pass (annotate_pass ex_packages) ! i)" if "i < 1" for i
    using that a(3) by simp
  from merged_record_placement [OF refl a(1,2) b ex_packages_collapse]
  have "main id ex_packages = Inr (concat (take (length ex_packages_out - 2) ex_packages_out) @ [10])"
    by blast
  moreover have "length ex_packages_out - 2 = 3"
    by (simp add: ex_packages_out_def)
  ultimately show ?thesis using a ex_packages_collapse by simp
qed

text \<open>
  Claim C3 as it was stated fails on \<open>ex_one_package\<close>: its only line is a package-addition
  record, the collapser rewrites it, and the output holds no line at all, because the
  merged record is one of the last two lines.
\<close>

theorem sole_package_line_trimmed:
  \<open>contains marker (recolor_pass (annotate_pass ex_one_package) ! 0) \<and>
   collapse id (recolor_pass (annotate_pass ex_one_package)) =
     Inr [str ''["o", "", "go: added github.com/a'' @ crlf_esc @ str ''...'' @ crlf_esc @
          str ''go: added github.com/a"]'' @ [10]] \<and>
   main id ex_one_package = Inr [10]\<close>
  unfolding main_def ex_one_package_recolored ex_one_package_collapse
  by (simp add: ex_one_package_def marker_def)

text \<open>
  Claim C1, as amended. When the sequence the collapser leaves behind has fewer than two
  lines, the final slice is empty: the run prints an empty line and ends normally.
\<close>

theorem short_recording_prints_empty_line:
  assumes "collapse fr (recolor_pass (annotate_pass lines)) = Inr out" and "length out < 2"
  shows "main fr lines = Inr [10]"
  using assms by (simp add: main_def)

text \<open>The theorem on \<open>ex_one_prompt\<close>, a recording of one line.\<close>

theorem short_recording_witness:
  \<open>collapse id (recolor_pass (annotate_pass ex_one_prompt)) =
     Inr [str ''["o","","'' @ blue @ str ''"]'' @ [10]] \<and>
   length [str ''["o","","'' @ blue @ str ''"]'' @ [10]] < 2 \<and>
   main id ex_one_prompt = Inr [10]\<close>
proof -
  have short: \<open>length [str ''["o","","'' @ blue @ str ''"]'' @ [10]] < 2\<close>
    by simp
  from short_recording_prints_empty_line [OF ex_one_prompt_collapse short] ex_one_prompt_collapse short
  show ?thesis by simp
qed

text \<open>
  Claim C1 as it was stated fails on the empty recording: no line is left, and the run
  prints an empty line instead of raising an exception.
\<close>

theorem empty_recording_no_failure:
  "recolor_pass (annotate_pass []) = [] \<and> collapse id [] = Inr [] \<and> main id [] = Inr [10]"
  by (simp add: eval_passes collapse_def summarize_def main_def)

text \<open>
  Claim C9. Let line \<open>i\<close> of the recording contain none of \<^verbatim>\<open>$ "]\<close>, the escaped line
  break \<^verbatim>\<open>\r\n\<close> and the marker, and let it hold no \<^verbatim>\<open>$ \<close> once the first loop has run.
  Then the two recoloring loops leave its text as it is, and when the collapser finishes,
  the line stands unchanged in the sequence it leaves behind: at its old index, moved up
  by one for every package-addition line before it but the first.
\<close>

theorem untouched_line_preserved:
  assumes "i < length lines"
    and "\<not> contains prompt_end (lines ! i)" and "\<not> contains crlf_esc (lines ! i)"
    and "\<not> contains marker (lines ! i)"
    and "\<not> contains prompt (annotate_pass lines ! i)"
    and "collapse fr (recolor_pass (annotate_pass lines)) = Inr out"
  shows "recolor_pass (annotate_pass lines) ! i = lines ! i \<and>
    i - (length (filter (contains marker) (take i (recolor_pass (annotate_pass lines)))) - 1)
      < length out \<and>
    out ! (i - (length (filter (contains marker) (take i (recolor_pass (annotate_pass lines)))) - 1))
      = lines ! i"
proof -
  have same: "recolor_pass (annotate_pass lines) ! i = lines ! i"
    using assms(1,2,3,5) by (rule unchanged_line)
  have "i < length (recolor_pass (annotate_pass lines))"
    using assms(1) by (simp add: recolor_pass_map)
  from collapse_keeps_line [OF assms(6) this] same assms(4)
  show ?thesis by simp
qed

text \<open>
  The theorem at line 5 of \<open>ex_packages\<close>: two package-addition lines stand before it, so
  it is line 4 of the result.
\<close>

theorem untouched_line_witness:
  \<open>5 < length ex_packages \<and>
   \<not> contains prompt_end (ex_packages ! 5) \<and> \<not> contains crlf_esc (ex_packages ! 5) \<and>
   \<not> contains marker (ex_packages ! 5) \<and> \<not> contains prompt (annotate_pass ex_packages ! 5) \<and>
   collapse id (recolor_pass (annotate_pass ex_packages)) = Inr ex_packages_out \<and>
   length (filter (contains marker) (take 5 (recolor_pass (annotate_pass ex_packages)))) = 2 \<and>
   ex_packages_out ! 4 = ex_packages ! 5\<close>
proof -
  have a: "5 < length ex_packages"
    "\<not> contains prompt_end (ex_packages ! 5)" "\<not> contains crlf_esc (ex_packages ! 5)"
    "\<not> contains marker (ex_packages ! 5)"
    by (simp_all add: ex_packages_def prompt_end_def crlf_esc_def marker_def)
  have b: "\<not> contains prompt (annotate_pass ex_packages ! 5)"
    by (simp add: ex_packages_def eval_passes)
  have k: "length (filter (contains marker) (take 5 (recolor_pass (annotate_pass ex_packages)))) = 2"
    unfolding ex_recolored by (simp add: marker_def crlf_esc_def reset_def)
  from untouched_line_preserved [OF a b ex_packages_collapse]
  have "ex_packages_out ! 4 = ex_packages ! 5"
    unfolding k by simp
  then show ?thesis using a b k ex_packages_collapse by simp
qed






end
